theory Spec2Isabelle
  imports Complex_Main
begin

section \<open>The notebook as data\<close>

text \<open>
  \<^verbatim>\<open>beta-binomial-model.ipynb\<close> is a JSON document whose \<^verbatim>\<open>cells\<close> array holds
  markdown cells (the exposition, formalised in the sections below) and code cells.
  A cell keeps its \<^verbatim>\<open>cell_type\<close>, its \<^verbatim>\<open>execution_count\<close> (\<^verbatim>\<open>null\<close> is \<open>None\<close>)
  and its \<^verbatim>\<open>source\<close>, a list of lines; the line feed that ends every line but the
  last one of a cell is left out. The text of a markdown cell is not executed and is
  represented by its number of source lines.
\<close>

datatype cell =
    Markdown nat
  | Code "nat option" "string list"

definition notebook_cells :: "cell list" where
  \<open>notebook_cells =
    [ Markdown 16,
      Markdown 13,
      Code (Some 1)
        [ ''import matplotlib.pyplot as plt'',
          ''import numpy as np'',
          ''import pandas as pd'',
          ''import seaborn as sns'',
          ''import scipy.stats as stats'',
          '''',
          ''sns.set_style("whitegrid")'',
          '''',
          ''%matplotlib inline'',
          ''%config InlineBackend.figure_format = '' @ [CHR 0x27] @ ''retina'' @ [CHR 0x27] ],
      Markdown 13,
      Markdown 12,
      Markdown 15,
      Code (Some 2) [''# A:''],
      Markdown 1,
      Code (Some 3) [''# A:''],
      Markdown 28,
      Markdown 11,
      Code (Some 4) [''# A:''],
      Markdown 11,
      Code (Some 5) [''# A:''],
      Markdown 38,
      Code (Some 6) [''# A:''],
      Markdown 30,
      Code (Some 7) [''# A:''],
      Markdown 3,
      Code (Some 8) [''# A:''],
      Markdown 13,
      Markdown 13,
      Markdown 12,
      Markdown 47,
      Markdown 7,
      Code None [] ]\<close>

fun is_code :: "cell \<Rightarrow> bool" where
  "is_code (Code _ _) = True"
| "is_code (Markdown _) = False"

fun cell_source :: "cell \<Rightarrow> string list" where
  "cell_source (Code _ src) = src"
| "cell_source (Markdown _) = []"

definition code_cells :: "cell list" where
  "code_cells = filter is_code notebook_cells"

definition is_placeholder :: "cell \<Rightarrow> bool" where
  "is_placeholder c \<longleftrightarrow> cell_source c = [''# A:'']"

definition is_statement :: "string \<Rightarrow> bool" where
  \<comment> \<open>a source line that is neither blank nor a comment\<close>
  "is_statement l \<longleftrightarrow> l \<noteq> [] \<and> hd l \<noteq> CHR ''#''"

text \<open>
  The kind of a source line of a code cell, read off its text: blank, a comment
  (\<^verbatim>\<open>#\<close>), an IPython magic (\<^verbatim>\<open>%\<close>), an \<^verbatim>\<open>import\<close> statement, a bare call
  (an expression \<^verbatim>\<open>f(...)\<close> with no assignment), or any other statement, such as an
  assignment, a \<^verbatim>\<open>def\<close> or a loop.
\<close>

datatype line_kind = Blank | Comment | Magic | Import | Call | Other

definition starts_with :: "string \<Rightarrow> string \<Rightarrow> bool" where
  "starts_with p l \<longleftrightarrow> take (length p) l = p"

definition kind_of_line :: "string \<Rightarrow> line_kind" where
  "kind_of_line l =
     (if l = [] then Blank
      else if starts_with ''#'' l then Comment
      else if starts_with ''%'' l then Magic
      else if starts_with ''import '' l then Import
      else if CHR ''('' \<in> set l \<and> CHR ''='' \<notin> set l \<and> last l = CHR '')'' then Call
      else Other)"

section \<open>The Binomial likelihood and the MLE\<close>

text \<open>
  \<open>n\<close> visitors and \<open>k\<close> subscribers are counts, the probability \<open>p\<close> is a real.
  The likelihood is the probability mass function
  \<open>L(n, k | p) = C(n, k) p^k (1 - p)^(n - k)\<close> (notebook lines 111 and 252); the point
  estimate is the fraction of successes, \<open>p = k / n\<close> (lines 227 and 269).
\<close>

definition likelihood :: "nat \<Rightarrow> nat \<Rightarrow> real \<Rightarrow> real" where
  "likelihood n k p = real (n choose k) * p ^ k * (1 - p) ^ (n - k)"

definition mle :: "nat \<Rightarrow> nat \<Rightarrow> real" where
  "mle n k = real k / real n"

section \<open>The Gamma function, the Beta function and the Beta density\<close>

text \<open>
  A power with a real exponent, \<open>x^a\<close> for \<open>x\<close> in \<open>[0, 1]\<close> or \<open>x > 0\<close>. For \<open>x > 0\<close>
  it is \<open>exp (a * ln x)\<close>. The exponent \<open>0\<close> gives \<open>1\<close> also at \<open>x = 0\<close>, as \<open>p^0\<close> does
  in the likelihood, so that \<open>Beta(1, 1)\<close> is the uniform density on the closed interval.
  \<open>0^a\<close> is \<open>0\<close> for \<open>a > 0\<close>; for \<open>a < 0\<close> the notebook gives it no value (the density
  has a pole there) and the model takes \<open>0\<close>.
\<close>

definition rpow :: "real \<Rightarrow> real \<Rightarrow> real" where
  "rpow x a = (if a = 0 then 1 else x powr a)"

text \<open>
  The integrals of the notebook, over \<open>(0, \<infinity>)\<close> for the Gamma function and over
  \<open>(0, 1)\<close> for the Beta function, are improper at both ends. They are taken as Newton
  integrals: \<open>f\<close> has the integral \<open>I\<close> when some primitive \<open>F\<close> of \<open>f\<close> on the open
  interval has limits \<open>a\<close> at the left end and \<open>b\<close> at the right end with \<open>I = b - a\<close>.
  For the continuous integrands of the notebook this is the value of the Riemann
  integral; the lemmas \<open>has_integral_0_inf_unique\<close> and \<open>has_integral_0_1_unique\<close> show
  that \<open>I\<close> is determined by \<open>f\<close>.
\<close>

definition has_integral_0_inf :: "(real \<Rightarrow> real) \<Rightarrow> real \<Rightarrow> bool" where
  "has_integral_0_inf f I \<longleftrightarrow>
     (\<exists>F a b. (\<forall>x>0. (F has_real_derivative f x) (at x))
        \<and> (F \<longlongrightarrow> a) (at_right 0) \<and> (F \<longlongrightarrow> b) at_top \<and> I = b - a)"

definition has_integral_0_1 :: "(real \<Rightarrow> real) \<Rightarrow> real \<Rightarrow> bool" where
  "has_integral_0_1 f I \<longleftrightarrow>
     (\<exists>F a b. (\<forall>x. 0 < x \<and> x < 1 \<longrightarrow> (F has_real_derivative f x) (at x))
        \<and> (F \<longlongrightarrow> a) (at_right 0) \<and> (F \<longlongrightarrow> b) (at_left 1) \<and> I = b - a)"

text \<open>
  The notebook defines \<open>\<Gamma>(z)\<close> by cases (lines 394 to 398): \<open>(z - 1)!\<close> when \<open>z\<close> is a
  positive integer, the integral of \<open>x^(z - 1) e^(-x)\<close> over \<open>(0, \<infinity>)\<close> when \<open>z\<close> is real.
\<close>

definition Gamma_integral :: "real \<Rightarrow> real" where
  "Gamma_integral z = (THE I. has_integral_0_inf (\<lambda>x. rpow x (z - 1) * exp (- x)) I)"

definition Gamma :: "real \<Rightarrow> real" where
  "Gamma z = (if z \<in> \<nat> \<and> 0 < z then fact (nat \<lfloor>z\<rfloor> - 1) else Gamma_integral z)"

text \<open>
  The Beta function in its two forms (line 411), the integral of
  \<open>u^(alpha - 1) (1 - u)^(beta - 1)\<close> over \<open>(0, 1)\<close> and the quotient of Gamma values, and
  the Beta density in its two forms: the kernel divided by the integral (line 373), and
  the kernel times \<open>\<Gamma>(alpha + beta) / (\<Gamma>(alpha) \<Gamma>(beta))\<close> (line 415).
\<close>

definition Beta_integral :: "real \<Rightarrow> real \<Rightarrow> real" where
  "Beta_integral alpha beta =
     (THE I. has_integral_0_1 (\<lambda>u. rpow u (alpha - 1) * rpow (1 - u) (beta - 1)) I)"

definition Beta_function :: "real \<Rightarrow> real \<Rightarrow> real" where
  "Beta_function alpha beta = Gamma alpha * Gamma beta / Gamma (alpha + beta)"

definition beta_pdf_integral :: "real \<Rightarrow> real \<Rightarrow> real \<Rightarrow> real" where
  "beta_pdf_integral alpha beta x =
     rpow x (alpha - 1) * rpow (1 - x) (beta - 1) / Beta_integral alpha beta"

definition beta_pdf :: "real \<Rightarrow> real \<Rightarrow> real \<Rightarrow> real" where
  "beta_pdf alpha beta x =
     Gamma (alpha + beta) / (Gamma alpha * Gamma beta)
       * rpow x (alpha - 1) * rpow (1 - x) (beta - 1)"

section \<open>The posterior update and the MAP\<close>

text \<open>
  The constant \<open>c = C(n, k) \<Gamma>(alpha + beta) / (\<Gamma>(alpha) \<Gamma>(beta))\<close> of the
  unnormalised posterior (line 452), the parameters of the posterior (lines 465 and
  466) and the mode of a Beta distribution (line 484). The subtraction \<open>n - k\<close> of the
  notebook is the one of the reals, not the truncating one of \<open>nat\<close>.
\<close>

definition posterior_constant :: "nat \<Rightarrow> nat \<Rightarrow> real \<Rightarrow> real \<Rightarrow> real" where
  "posterior_constant n k alpha beta =
     real (n choose k) * (Gamma (alpha + beta) / (Gamma alpha * Gamma beta))"

definition alpha_posterior :: "nat \<Rightarrow> real \<Rightarrow> real" where
  "alpha_posterior k alpha_prior = real k + alpha_prior"

definition beta_posterior :: "nat \<Rightarrow> nat \<Rightarrow> real \<Rightarrow> real" where
  "beta_posterior n k beta_prior = real n - real k + beta_prior"

definition posterior_update :: "nat \<Rightarrow> nat \<Rightarrow> real \<times> real \<Rightarrow> real \<times> real" where
  "posterior_update n k prior =
     (alpha_posterior k (fst prior), beta_posterior n k (snd prior))"

definition MAP :: "real \<Rightarrow> real \<Rightarrow> real" where
  "MAP alpha beta = (alpha - 1) / (alpha + beta - 2)"

section \<open>Primitives and notions used in the proofs\<close>

text \<open>
  A primitive of \<open>x^m e^(-x)\<close> for a natural number \<open>m\<close>, by repeated integration by
  parts. A primitive of \<open>x^(z - 1) e^(-x)\<close> for real \<open>z > 0\<close>, by integrating the
  exponential series term by term.
\<close>

fun poly_exp_primitive :: "nat \<Rightarrow> real \<Rightarrow> real" where
  "poly_exp_primitive 0 x = - exp (- x)"
| "poly_exp_primitive (Suc m) x = real (Suc m) * poly_exp_primitive m x - x ^ Suc m * exp (- x)"

definition exp_coeff :: "nat \<Rightarrow> real" where
  "exp_coeff n = (- 1) ^ n / fact n"

definition lower_gamma :: "real \<Rightarrow> real \<Rightarrow> real" where
  "lower_gamma z x = x powr z * (\<Sum>n. exp_coeff n / (real n + z) * x ^ n)"

text \<open>
  The coefficients of the binomial series of \<open>(1 - x)^e\<close>, and the primitive of
  \<open>x^(a - 1) (1 - x)^(b - 1)\<close> on \<open>(0, 1)\<close> obtained term by term from it. The value of
  the Beta integral is the sum of two such primitives at \<open>1/2\<close>.
\<close>

fun binom_coeff :: "real \<Rightarrow> nat \<Rightarrow> real" where
  "binom_coeff e 0 = 1"
| "binom_coeff e (Suc n) = binom_coeff e n * (real n - e) / real (Suc n)"

definition binom_series :: "real \<Rightarrow> real \<Rightarrow> real" where
  "binom_series e x = (\<Sum>n. binom_coeff e n * x ^ n)"

definition beta_primitive :: "real \<Rightarrow> real \<Rightarrow> real \<Rightarrow> real" where
  "beta_primitive a b x = x powr a * (\<Sum>n. binom_coeff (b - 1) n / (real n + a) * x ^ n)"

definition beta_value :: "real \<Rightarrow> real \<Rightarrow> real" where
  "beta_value a b = beta_primitive a b (1/2) + beta_primitive b a (1/2)"

text \<open>
  The hypotheses of the Bohr-Mollerup theorem: positive, \<open>f (x + 1) = x f x\<close>,
  \<open>f 1 = 1\<close> and logarithmically convex.
\<close>

definition gamma_like :: "(real \<Rightarrow> real) \<Rightarrow> bool" where
  "gamma_like f \<longleftrightarrow>
     (\<forall>x>0. 0 < f x) \<and> (\<forall>x>0. f (x + 1) = x * f x) \<and> f 1 = 1
     \<and> (\<forall>x>0. \<forall>y>0. \<forall>l. 0 \<le> l \<and> l \<le> 1 \<longrightarrow>
           f (l * x + (1 - l) * y) \<le> f x powr l * f y powr (1 - l))"

section \<open>Real powers\<close>

lemma rpow_pos: "0 < x \<Longrightarrow> rpow x a = x powr a"
  by (simp add: rpow_def)

lemma rpow_nat: "0 \<le> x \<Longrightarrow> rpow x (real k) = x ^ k"
  by (cases "k = 0"; cases "x = 0") (simp_all add: rpow_def powr_realpow)

lemma rpow_nonneg: "0 \<le> rpow x a"
  by (simp add: rpow_def)

lemma rpow_gt0: "0 < x \<Longrightarrow> 0 < rpow x a"
  by (simp add: rpow_def)

lemma rpow_mult: "0 \<le> x \<Longrightarrow> 0 \<le> y \<Longrightarrow> rpow (x * y) a = rpow x a * rpow y a"
  by (simp add: rpow_def powr_mult)

lemma rpow_le_one: "0 \<le> x \<Longrightarrow> x \<le> 1 \<Longrightarrow> 0 \<le> a \<Longrightarrow> rpow x a \<le> 1"
  by (simp add: rpow_def powr_le1)

lemma rpow_less_one: "0 \<le> x \<Longrightarrow> x < 1 \<Longrightarrow> 0 < a \<Longrightarrow> rpow x a < 1"
  using powr_less_mono2 [of a x 1] by (simp add: rpow_def)

lemma rpow_one: "rpow 1 a = 1"
  by (simp add: rpow_def)

lemma rpow_zero_exp: "rpow x 0 = 1"
  by (simp add: rpow_def)

lemma pow_rpow:
  assumes "0 \<le> x" and "0 < a"
  shows "x ^ j * rpow x (a - 1) = rpow x (real j + a - 1)"
proof (cases "x = 0")
  case True
  show ?thesis
  proof (cases j)
    case 0
    then show ?thesis by simp
  next
    case (Suc i)
    then have "real j + a - 1 \<noteq> 0" using assms(2) by simp
    then show ?thesis using True Suc by (simp add: rpow_def)
  qed
next
  case False
  then have x: "0 < x" using assms(1) by simp
  have "x ^ j * x powr (a - 1) = x powr (real j + (a - 1))"
    using x by (simp add: powr_add powr_realpow)
  then show ?thesis using x by (simp add: rpow_pos add_diff_eq)
qed

lemma powr_at_right_0:
  assumes "0 < z"
  shows "((\<lambda>x::real. x powr z) \<longlongrightarrow> 0) (at_right 0)"
proof (rule tendsto_zero_powrI)
  show "((\<lambda>x::real. x) \<longlongrightarrow> 0) (at_right 0)" by (rule tendsto_ident_at)
  show "((\<lambda>x::real. z) \<longlongrightarrow> z) (at_right 0)" by (rule tendsto_const)
  show "\<forall>\<^sub>F x in at_right 0. (0::real) \<le> x"
    using eventually_at_right_less [of "0::real"] by eventually_elim simp
  show "0 < z" by (rule assms)
qed

section \<open>Consequences of \<open>ln t \<le> t - 1\<close>\<close>

text \<open>
  With \<open>m = a / (a + b)\<close>, \<open>x = m t\<close> and \<open>1 - x = (1 - m) s\<close> the weighted sum
  \<open>a (t - 1) + b (s - 1)\<close> vanishes, so \<open>t^a s^b \<le> 1\<close>, strictly unless \<open>t = 1\<close>: the
  kernel \<open>x^a (1 - x)^b\<close> has its only maximum on \<open>[0, 1]\<close> at \<open>m\<close>. The same
  inequality gives Young's inequality.
\<close>

lemma powr_le_exp:
  assumes "0 \<le> t" "0 \<le> a"
  shows "rpow t a \<le> exp (a * (t - 1))"
proof (cases "t = 0 \<or> a = 0")
  case True
  then show ?thesis using assms by (auto simp: rpow_def)
next
  case False
  then have t: "0 < t" and a: "0 < a" using assms by auto
  have "ln t \<le> t - 1" using t by (rule ln_le_minus_one)
  then have "a * ln t \<le> a * (t - 1)" using a by simp
  then show ?thesis using t a by (simp add: rpow_def powr_def)
qed

lemma powr_less_exp:
  assumes "0 \<le> t" "0 < a" "t \<noteq> 1"
  shows "rpow t a < exp (a * (t - 1))"
proof (cases "t = 0")
  case True
  then show ?thesis using assms by (auto simp: rpow_def)
next
  case False
  then have t: "0 < t" using assms by auto
  have "ln t \<le> t - 1" using t by (rule ln_le_minus_one)
  moreover have "ln t \<noteq> t - 1" using ln_eq_minus_one [OF t] assms(3) by blast
  ultimately have "ln t < t - 1" by simp
  then have "a * ln t < a * (t - 1)" using assms(2) by simp
  then show ?thesis using t assms(2) by (simp add: rpow_def powr_def)
qed

lemma mode_interior:
  assumes a: "0 < a" and b: "0 < b" and x: "0 \<le> x" "x \<le> 1"
  defines "m \<equiv> a / (a + b)"
  shows "rpow x a * rpow (1 - x) b \<le> rpow m a * rpow (1 - m) b"
    and "x \<noteq> m \<Longrightarrow> rpow x a * rpow (1 - x) b < rpow m a * rpow (1 - m) b"
proof -
  have m: "0 < m" "m < 1" using a b by (simp_all add: m_def)
  define t where "t = x / m"
  define s where "s = (1 - x) / (1 - m)"
  have t: "0 \<le> t" and s: "0 \<le> s" using x m by (simp_all add: t_def s_def)
  have xt: "x = m * t" and xs: "1 - x = (1 - m) * s" using m by (simp_all add: t_def s_def)
  have m1: "1 - m = b / (a + b)" using a b by (simp add: m_def field_simps)
  have "a * (t - 1) + b * (s - 1) = 0"
    unfolding t_def s_def m1 unfolding m_def using a b by (simp add: field_simps)
  then have e: "exp (a * (t - 1)) * exp (b * (s - 1)) = 1"
    by (simp add: exp_add [symmetric])
  have K: "0 < rpow m a * rpow (1 - m) b" using m by (simp add: rpow_gt0)
  have eq: "rpow x a * rpow (1 - x) b = (rpow m a * rpow (1 - m) b) * (rpow t a * rpow s b)"
  proof -
    have "rpow x a = rpow m a * rpow t a" unfolding xt using m t by (simp add: rpow_mult)
    moreover have "rpow (1 - x) b = rpow (1 - m) b * rpow s b"
      unfolding xs using m s by (simp add: rpow_mult)
    ultimately show ?thesis by simp
  qed
  have le1: "rpow t a \<le> exp (a * (t - 1))" using t a by (simp add: powr_le_exp)
  have le2: "rpow s b \<le> exp (b * (s - 1))" using s b by (simp add: powr_le_exp)
  have "rpow t a * rpow s b \<le> exp (a * (t - 1)) * exp (b * (s - 1))"
    by (rule mult_mono [OF le1 le2]) (simp_all add: rpow_nonneg)
  then have "rpow t a * rpow s b \<le> 1" using e by simp
  then have "(rpow m a * rpow (1 - m) b) * (rpow t a * rpow s b)
      \<le> (rpow m a * rpow (1 - m) b) * 1"
    using K by (intro mult_left_mono) simp_all
  then show "rpow x a * rpow (1 - x) b \<le> rpow m a * rpow (1 - m) b"
    unfolding eq by simp
  show "rpow x a * rpow (1 - x) b < rpow m a * rpow (1 - m) b" if "x \<noteq> m"
  proof -
    have "t \<noteq> 1" using that m by (simp add: t_def)
    then have lt1: "rpow t a < exp (a * (t - 1))" using t a by (simp add: powr_less_exp)
    have "rpow t a * rpow s b \<le> rpow t a * exp (b * (s - 1))"
      by (rule mult_left_mono [OF le2]) (simp add: rpow_nonneg)
    also have "\<dots> < exp (a * (t - 1)) * exp (b * (s - 1))"
      using lt1 by simp
    finally have "rpow t a * rpow s b < 1" using e by simp
    then have "(rpow m a * rpow (1 - m) b) * (rpow t a * rpow s b)
        < (rpow m a * rpow (1 - m) b) * 1"
      using K by (intro mult_strict_left_mono) simp_all
    then show ?thesis unfolding eq by simp
  qed
qed

lemma beta_kernel_mode:
  assumes a: "0 \<le> a" and b: "0 \<le> b" and ab: "0 < a + b" and x: "0 \<le> x" "x \<le> 1"
  defines "m \<equiv> a / (a + b)"
  shows "rpow x a * rpow (1 - x) b \<le> rpow m a * rpow (1 - m) b"
    and "x \<noteq> m \<Longrightarrow> rpow x a * rpow (1 - x) b < rpow m a * rpow (1 - m) b"
proof -
  consider (a0) "a = 0" "0 < b" | (b0) "b = 0" "0 < a" | (pos) "0 < a" "0 < b"
    using a b ab by fastforce
  then have "rpow x a * rpow (1 - x) b \<le> rpow m a * rpow (1 - m) b
      \<and> (x \<noteq> m \<longrightarrow> rpow x a * rpow (1 - x) b < rpow m a * rpow (1 - m) b)"
  proof cases
    case a0
    then have "m = 0" by (simp add: m_def)
    then show ?thesis using a0 x
      by (auto simp: rpow_zero_exp rpow_one rpow_le_one rpow_less_one)
  next
    case b0
    then have "m = 1" by (simp add: m_def)
    then show ?thesis using b0 x
      by (auto simp: rpow_zero_exp rpow_one rpow_le_one rpow_less_one)
  next
    case pos
    then show ?thesis using mode_interior [OF pos x] by (simp add: m_def)
  qed
  then show "rpow x a * rpow (1 - x) b \<le> rpow m a * rpow (1 - m) b"
    and "x \<noteq> m \<Longrightarrow> rpow x a * rpow (1 - x) b < rpow m a * rpow (1 - m) b"
    by blast+
qed

lemma convex_comb_pos:
  fixes x y l :: real
  assumes "0 < x" and "0 < y" and "0 \<le> l" and "l \<le> 1"
  shows "0 < l * x + (1 - l) * y"
proof (cases "l = 0")
  case True
  then show ?thesis using assms(2) by simp
next
  case False
  then have "0 < l * x" using assms(1,3) by simp
  moreover have "0 \<le> (1 - l) * y" using assms(2,4) by simp
  ultimately show ?thesis by (rule add_pos_nonneg)
qed

lemma young_inequality:
  fixes a b l :: real
  assumes a: "0 < a" and b: "0 < b" and l: "0 \<le> l" "l \<le> 1"
  shows "a powr l * b powr (1 - l) \<le> l * a + (1 - l) * b"
proof -
  define m where "m = l * a + (1 - l) * b"
  have m: "0 < m"
  proof (cases "l = 0")
    case True
    then show ?thesis using b by (simp add: m_def)
  next
    case False
    then have "0 < l * a" using l a by simp
    moreover have "0 \<le> (1 - l) * b" using l b by simp
    ultimately show ?thesis unfolding m_def by (rule add_pos_nonneg)
  qed
  have e: "l * (a / m - 1) + (1 - l) * (b / m - 1) = 0"
  proof -
    have "l * (a / m - 1) + (1 - l) * (b / m - 1) = (l * a) / m + ((1 - l) * b) / m - 1"
      by (simp add: algebra_simps)
    also have "\<dots> = (l * a + (1 - l) * b) / m - 1"
      by (simp only: add_divide_distrib)
    also have "\<dots> = 0" using m by (simp add: m_def [symmetric])
    finally show ?thesis .
  qed
  have 1: "(a / m) powr l \<le> exp (l * (a / m - 1))"
    using powr_le_exp [of "a / m" l] a m l by (simp add: rpow_pos)
  have 2: "(b / m) powr (1 - l) \<le> exp ((1 - l) * (b / m - 1))"
    using powr_le_exp [of "b / m" "1 - l"] b m l by (simp add: rpow_pos)
  have "(a / m) powr l * (b / m) powr (1 - l)
      \<le> exp (l * (a / m - 1)) * exp ((1 - l) * (b / m - 1))"
    by (rule mult_mono [OF 1 2]) simp_all
  also have "\<dots> = 1" by (simp add: exp_add [symmetric] e)
  finally have le1: "(a / m) powr l * (b / m) powr (1 - l) \<le> 1" .
  have mm: "m powr l * m powr (1 - l) = m" using m by (simp add: powr_add [symmetric])
  have "(a / m) powr l * (b / m) powr (1 - l)
      = (a powr l * b powr (1 - l)) / (m powr l * m powr (1 - l))"
    using a b m by (simp add: powr_divide)
  then have "(a powr l * b powr (1 - l)) / m \<le> 1" using le1 unfolding mm by simp
  then show ?thesis using m by (simp add: m_def [symmetric] pos_divide_le_eq)
qed

section \<open>Newton integrals: monotone, unique, linear\<close>

lemma limits_mono:
  fixes D :: "real \<Rightarrow> real"
  assumes mono: "\<And>x y. x \<in> S \<Longrightarrow> y \<in> S \<Longrightarrow> x \<le> y \<Longrightarrow> D x \<le> D y"
    and a: "(D \<longlongrightarrow> a) Fl" and b: "(D \<longlongrightarrow> b) Fr"
    and nt: "Fl \<noteq> bot" "Fr \<noteq> bot"
    and c: "c \<in> S"
    and evl: "\<forall>\<^sub>F x in Fl. x \<in> S \<and> x \<le> c"
    and evr: "\<forall>\<^sub>F x in Fr. x \<in> S \<and> c \<le> x"
  shows "a \<le> b"
proof -
  have "\<forall>\<^sub>F x in Fl. D x \<le> D c"
    using evl by eventually_elim (simp add: mono c)
  with a have "a \<le> D c" using nt(1) by (intro tendsto_upperbound [where f = D and F = Fl])
  moreover have "\<forall>\<^sub>F x in Fr. D c \<le> D x"
    using evr by eventually_elim (simp add: mono c)
  with b have "D c \<le> b" using nt(2) by (intro tendsto_lowerbound [where f = D and F = Fr])
  ultimately show ?thesis by simp
qed

lemma has_integral_0_inf_mono:
  assumes f: "has_integral_0_inf f I" and g: "has_integral_0_inf g J"
    and le: "\<And>x. 0 < x \<Longrightarrow> f x \<le> g x"
  shows "I \<le> J"
proof -
  from f obtain F a b where F: "\<And>x. 0 < x \<Longrightarrow> (F has_real_derivative f x) (at x)"
    and Fa: "(F \<longlongrightarrow> a) (at_right 0)" and Fb: "(F \<longlongrightarrow> b) at_top" and I: "I = b - a"
    unfolding has_integral_0_inf_def by blast
  from g obtain G c d where G: "\<And>x. 0 < x \<Longrightarrow> (G has_real_derivative g x) (at x)"
    and Gc: "(G \<longlongrightarrow> c) (at_right 0)" and Gd: "(G \<longlongrightarrow> d) at_top" and J: "J = d - c"
    unfolding has_integral_0_inf_def by blast
  define D where "D = (\<lambda>x. G x - F x)"
  have mono: "D x \<le> D y" if "x \<in> {0<..}" "y \<in> {0<..}" "x \<le> y" for x y
  proof (rule DERIV_nonneg_imp_nondecreasing [OF that(3)])
    fix t assume "x \<le> t" "t \<le> y"
    then have t: "0 < t" using that(1) by simp
    have "(D has_real_derivative g t - f t) (at t)"
      unfolding D_def by (rule DERIV_diff [OF G [OF t] F [OF t]])
    moreover have "0 \<le> g t - f t" using le [OF t] by simp
    ultimately show "\<exists>d. (D has_real_derivative d) (at t) \<and> 0 \<le> d" by blast
  qed
  have "c - a \<le> d - b"
  proof (rule limits_mono [where D = D and S = "{0<..}" and c = 1])
    show "(D \<longlongrightarrow> c - a) (at_right 0)" unfolding D_def by (rule tendsto_diff [OF Gc Fa])
    show "(D \<longlongrightarrow> d - b) at_top" unfolding D_def by (rule tendsto_diff [OF Gd Fb])
    show "\<forall>\<^sub>F x in at_right 0. x \<in> {0<..} \<and> x \<le> (1::real)"
      unfolding eventually_at_right_field by (intro exI [of _ 1]) simp
    show "\<forall>\<^sub>F x in at_top. x \<in> {0<..} \<and> (1::real) \<le> x"
      using eventually_ge_at_top [of "1::real"] by eventually_elim simp
  qed (simp_all add: mono)
  then show ?thesis by (simp add: I J)
qed

lemma has_integral_0_inf_unique:
  assumes "has_integral_0_inf f I" and "has_integral_0_inf f J"
  shows "I = J"
  using has_integral_0_inf_mono [OF assms] has_integral_0_inf_mono [OF assms(2,1)] by fastforce

lemma has_integral_0_inf_scale:
  assumes "has_integral_0_inf f I"
  shows "has_integral_0_inf (\<lambda>x. c * f x) (c * I)"
proof -
  from assms obtain F a b where F: "\<And>x. 0 < x \<Longrightarrow> (F has_real_derivative f x) (at x)"
    and Fa: "(F \<longlongrightarrow> a) (at_right 0)" and Fb: "(F \<longlongrightarrow> b) at_top" and I: "I = b - a"
    unfolding has_integral_0_inf_def by blast
  show ?thesis unfolding has_integral_0_inf_def
  proof (intro exI conjI allI impI)
    fix x :: real assume "0 < x"
    then show "((\<lambda>x. c * F x) has_real_derivative c * f x) (at x)"
      by (intro DERIV_cmult F)
  next
    show "((\<lambda>x. c * F x) \<longlongrightarrow> c * a) (at_right 0)" by (intro tendsto_mult_left Fa)
    show "((\<lambda>x. c * F x) \<longlongrightarrow> c * b) at_top" by (intro tendsto_mult_left Fb)
    show "c * I = c * b - c * a" by (simp add: I algebra_simps)
  qed
qed

lemma has_integral_0_inf_add:
  assumes "has_integral_0_inf f I" and "has_integral_0_inf g J"
  shows "has_integral_0_inf (\<lambda>x. f x + g x) (I + J)"
proof -
  from assms(1) obtain F a b where F: "\<And>x. 0 < x \<Longrightarrow> (F has_real_derivative f x) (at x)"
    and Fa: "(F \<longlongrightarrow> a) (at_right 0)" and Fb: "(F \<longlongrightarrow> b) at_top" and I: "I = b - a"
    unfolding has_integral_0_inf_def by blast
  from assms(2) obtain G c d where G: "\<And>x. 0 < x \<Longrightarrow> (G has_real_derivative g x) (at x)"
    and Gc: "(G \<longlongrightarrow> c) (at_right 0)" and Gd: "(G \<longlongrightarrow> d) at_top" and J: "J = d - c"
    unfolding has_integral_0_inf_def by blast
  show ?thesis unfolding has_integral_0_inf_def
  proof (intro exI conjI allI impI)
    fix x :: real assume "0 < x"
    then show "((\<lambda>x. F x + G x) has_real_derivative f x + g x) (at x)"
      by (intro DERIV_add F G)
  next
    show "((\<lambda>x. F x + G x) \<longlongrightarrow> a + c) (at_right 0)" by (intro tendsto_add Fa Gc)
    show "((\<lambda>x. F x + G x) \<longlongrightarrow> b + d) at_top" by (intro tendsto_add Fb Gd)
    show "I + J = b + d - (a + c)" by (simp add: I J)
  qed
qed

lemma has_integral_0_1_mono:
  assumes f: "has_integral_0_1 f I" and g: "has_integral_0_1 g J"
    and le: "\<And>x. 0 < x \<Longrightarrow> x < 1 \<Longrightarrow> f x \<le> g x"
  shows "I \<le> J"
proof -
  from f obtain F a b
    where F: "\<And>x. 0 < x \<Longrightarrow> x < 1 \<Longrightarrow> (F has_real_derivative f x) (at x)"
    and Fa: "(F \<longlongrightarrow> a) (at_right 0)" and Fb: "(F \<longlongrightarrow> b) (at_left 1)" and I: "I = b - a"
    unfolding has_integral_0_1_def by blast
  from g obtain G c d
    where G: "\<And>x. 0 < x \<Longrightarrow> x < 1 \<Longrightarrow> (G has_real_derivative g x) (at x)"
    and Gc: "(G \<longlongrightarrow> c) (at_right 0)" and Gd: "(G \<longlongrightarrow> d) (at_left 1)" and J: "J = d - c"
    unfolding has_integral_0_1_def by blast
  define D where "D = (\<lambda>x. G x - F x)"
  have mono: "D x \<le> D y" if "x \<in> {0<..<1}" "y \<in> {0<..<1}" "x \<le> y" for x y
  proof (rule DERIV_nonneg_imp_nondecreasing [OF that(3)])
    fix t assume "x \<le> t" "t \<le> y"
    then have t: "0 < t" "t < 1" using that(1,2) by simp_all
    have "(D has_real_derivative g t - f t) (at t)"
      unfolding D_def by (rule DERIV_diff [OF G [OF t] F [OF t]])
    moreover have "0 \<le> g t - f t" using le [OF t] by simp
    ultimately show "\<exists>d. (D has_real_derivative d) (at t) \<and> 0 \<le> d" by blast
  qed
  have "c - a \<le> d - b"
  proof (rule limits_mono [where D = D and S = "{0<..<1}" and c = "1/2"])
    show "(D \<longlongrightarrow> c - a) (at_right 0)" unfolding D_def by (rule tendsto_diff [OF Gc Fa])
    show "(D \<longlongrightarrow> d - b) (at_left 1)" unfolding D_def by (rule tendsto_diff [OF Gd Fb])
    show "\<forall>\<^sub>F x in at_right 0. x \<in> {0<..<1} \<and> x \<le> (1/2::real)"
      unfolding eventually_at_right_field by (intro exI [of _ "1/2"]) simp
    show "\<forall>\<^sub>F x in at_left 1. x \<in> {0<..<1} \<and> (1/2::real) \<le> x"
      unfolding eventually_at_left_field by (intro exI [of _ "1/2"]) simp
  qed (simp_all add: mono)
  then show ?thesis by (simp add: I J)
qed

lemma has_integral_0_1_unique:
  assumes "has_integral_0_1 f I" and "has_integral_0_1 f J"
  shows "I = J"
  using has_integral_0_1_mono [OF assms] has_integral_0_1_mono [OF assms(2,1)] by fastforce

lemma has_integral_0_1_scale:
  assumes "has_integral_0_1 f I"
  shows "has_integral_0_1 (\<lambda>x. c * f x) (c * I)"
proof -
  from assms obtain F a b
    where F: "\<And>x. 0 < x \<Longrightarrow> x < 1 \<Longrightarrow> (F has_real_derivative f x) (at x)"
    and Fa: "(F \<longlongrightarrow> a) (at_right 0)" and Fb: "(F \<longlongrightarrow> b) (at_left 1)" and I: "I = b - a"
    unfolding has_integral_0_1_def by blast
  show ?thesis unfolding has_integral_0_1_def
  proof (intro exI conjI allI impI)
    fix x :: real assume "0 < x \<and> x < 1"
    then show "((\<lambda>x. c * F x) has_real_derivative c * f x) (at x)"
      by (intro DERIV_cmult F) simp_all
  next
    show "((\<lambda>x. c * F x) \<longlongrightarrow> c * a) (at_right 0)" by (intro tendsto_mult_left Fa)
    show "((\<lambda>x. c * F x) \<longlongrightarrow> c * b) (at_left 1)" by (intro tendsto_mult_left Fb)
    show "c * I = c * b - c * a" by (simp add: I algebra_simps)
  qed
qed

lemma has_integral_0_1_add:
  assumes "has_integral_0_1 f I" and "has_integral_0_1 g J"
  shows "has_integral_0_1 (\<lambda>x. f x + g x) (I + J)"
proof -
  from assms(1) obtain F a b
    where F: "\<And>x. 0 < x \<Longrightarrow> x < 1 \<Longrightarrow> (F has_real_derivative f x) (at x)"
    and Fa: "(F \<longlongrightarrow> a) (at_right 0)" and Fb: "(F \<longlongrightarrow> b) (at_left 1)" and I: "I = b - a"
    unfolding has_integral_0_1_def by blast
  from assms(2) obtain G c d
    where G: "\<And>x. 0 < x \<Longrightarrow> x < 1 \<Longrightarrow> (G has_real_derivative g x) (at x)"
    and Gc: "(G \<longlongrightarrow> c) (at_right 0)" and Gd: "(G \<longlongrightarrow> d) (at_left 1)" and J: "J = d - c"
    unfolding has_integral_0_1_def by blast
  show ?thesis unfolding has_integral_0_1_def
  proof (intro exI conjI allI impI)
    fix x :: real assume "0 < x \<and> x < 1"
    then show "((\<lambda>x. F x + G x) has_real_derivative f x + g x) (at x)"
      by (intro DERIV_add F G) simp_all
  next
    show "((\<lambda>x. F x + G x) \<longlongrightarrow> a + c) (at_right 0)" by (intro tendsto_add Fa Gc)
    show "((\<lambda>x. F x + G x) \<longlongrightarrow> b + d) (at_left 1)" by (intro tendsto_add Fb Gd)
    show "I + J = b + d - (a + c)" by (simp add: I J)
  qed
qed

lemma has_integral_0_1_pos:
  assumes f: "has_integral_0_1 f I" and pos: "\<And>x. 0 < x \<Longrightarrow> x < 1 \<Longrightarrow> 0 < f x"
  shows "0 < I"
proof -
  from f obtain F a b
    where F: "\<And>x. 0 < x \<Longrightarrow> x < 1 \<Longrightarrow> (F has_real_derivative f x) (at x)"
    and Fa: "(F \<longlongrightarrow> a) (at_right 0)" and Fb: "(F \<longlongrightarrow> b) (at_left 1)" and I: "I = b - a"
    unfolding has_integral_0_1_def by blast
  have mono: "F x < F y" if "0 < x" "x < y" "y < 1" for x y
  proof (rule DERIV_pos_imp_increasing [OF that(2)])
    fix t assume "x \<le> t" "t \<le> y"
    then have t: "0 < t" "t < 1" using that by simp_all
    from F [OF t] pos [OF t]
    show "\<exists>d. (F has_real_derivative d) (at t) \<and> 0 < d" by blast
  qed
  have "\<forall>\<^sub>F x in at_right 0. F x \<le> F (1/4)"
    unfolding eventually_at_right_field
  proof (intro exI [of _ "1/4"] conjI allI impI)
    fix x :: real assume "0 < x" "x < 1/4"
    then show "F x \<le> F (1/4)" using mono [of x "1/4"] by simp
  qed simp
  with Fa have 1: "a \<le> F (1/4)" by (rule tendsto_upperbound) simp
  have "\<forall>\<^sub>F x in at_left 1. F (3/4) \<le> F x"
    unfolding eventually_at_left_field
  proof (intro exI [of _ "3/4"] conjI allI impI)
    fix x :: real assume "3/4 < x" "x < 1"
    then show "F (3/4) \<le> F x" using mono [of "3/4" x] by simp
  qed simp
  with Fb have 2: "F (3/4) \<le> b" by (rule tendsto_lowerbound) simp
  have "F (1/4) < F (3/4)" by (rule mono) simp_all
  with 1 2 show ?thesis by (simp add: I)
qed

lemma Gamma_integral_eq:
  assumes "has_integral_0_inf (\<lambda>x. rpow x (z - 1) * exp (- x)) I"
  shows "Gamma_integral z = I"
  unfolding Gamma_integral_def
proof (rule the_equality)
  show "has_integral_0_inf (\<lambda>x. rpow x (z - 1) * exp (- x)) I" by (rule assms)
  show "\<And>J. has_integral_0_inf (\<lambda>x. rpow x (z - 1) * exp (- x)) J \<Longrightarrow> J = I"
    by (rule has_integral_0_inf_unique [OF _ assms])
qed

lemma Beta_integral_eq:
  assumes "has_integral_0_1 (\<lambda>u. rpow u (a - 1) * rpow (1 - u) (b - 1)) I"
  shows "Beta_integral a b = I"
  unfolding Beta_integral_def
proof (rule the_equality)
  show "has_integral_0_1 (\<lambda>u. rpow u (a - 1) * rpow (1 - u) (b - 1)) I" by (rule assms)
  show "\<And>J. has_integral_0_1 (\<lambda>u. rpow u (a - 1) * rpow (1 - u) (b - 1)) J \<Longrightarrow> J = I"
    by (rule has_integral_0_1_unique [OF _ assms])
qed

text \<open>
  Hoelder's inequality in the form that gives logarithmic convexity, for any notion of
  integral that is linear and monotone.
\<close>

lemma holder_generic:
  fixes P :: "(real \<Rightarrow> real) \<Rightarrow> real \<Rightarrow> bool" and S :: "real set"
  assumes scale: "\<And>f I c. P f I \<Longrightarrow> P (\<lambda>x. c * f x) (c * I)"
    and add: "\<And>f g I J. P f I \<Longrightarrow> P g J \<Longrightarrow> P (\<lambda>x. f x + g x) (I + J)"
    and mono: "\<And>f g I J. P f I \<Longrightarrow> P g J \<Longrightarrow> (\<And>x. x \<in> S \<Longrightarrow> f x \<le> g x) \<Longrightarrow> I \<le> J"
    and f: "P f I" and g: "P g J" and h: "P h K"
    and I: "0 < I" and J: "0 < J"
    and fpos: "\<And>x. x \<in> S \<Longrightarrow> 0 < f x" and gpos: "\<And>x. x \<in> S \<Longrightarrow> 0 < g x"
    and l: "0 \<le> l" "l \<le> 1"
    and hx: "\<And>x. x \<in> S \<Longrightarrow> h x = f x powr l * g x powr (1 - l)"
  shows "K \<le> I powr l * J powr (1 - l)"
proof -
  define c where "c = I powr l * J powr (1 - l)"
  have c: "0 < c" using I J by (simp add: c_def)
  have 1: "P (\<lambda>x. (1 / c) * h x) ((1 / c) * K)" by (rule scale [OF h])
  have "P (\<lambda>x. (l / I) * f x + ((1 - l) / J) * g x) ((l / I) * I + ((1 - l) / J) * J)"
    by (intro add scale f g)
  then have 2: "P (\<lambda>x. (l / I) * f x + ((1 - l) / J) * g x) 1" using I J by simp
  have "(1 / c) * K \<le> 1"
  proof (rule mono [OF 1 2])
    fix x assume x: "x \<in> S"
    have "(f x / I) powr l * (g x / J) powr (1 - l) \<le> l * (f x / I) + (1 - l) * (g x / J)"
      using fpos [OF x] gpos [OF x] I J l by (intro young_inequality) simp_all
    moreover have "(f x / I) powr l * (g x / J) powr (1 - l) = h x / c"
      using fpos [OF x] gpos [OF x] I J
      by (simp add: hx [OF x] c_def powr_divide less_imp_le)
    ultimately show "1 / c * h x \<le> l / I * f x + (1 - l) / J * g x" by simp
  qed
  then show ?thesis using c by (simp add: c_def [symmetric] field_simps)
qed

section \<open>Primitives from power series\<close>

lemma powser_primitive:
  fixes c :: "nat \<Rightarrow> real"
  assumes sm: "\<And>y. \<bar>y\<bar> < R \<Longrightarrow> summable (\<lambda>n. c n * y ^ n)"
    and a: "0 < a" and x: "0 < x" "x < R"
  shows "((\<lambda>x. x powr a * (\<Sum>n. c n / (real n + a) * x ^ n))
      has_real_derivative x powr (a - 1) * (\<Sum>n. c n * x ^ n)) (at x)"
proof -
  define d where "d = (\<lambda>n. c n / (real n + a))"
  have smd: "summable (\<lambda>n. d n * y ^ n)" if y: "\<bar>y\<bar> < R" for y
  proof -
    obtain y' where y': "\<bar>y\<bar> < y'" "y' < R" using dense [OF y] by blast
    then have "summable (\<lambda>n. c n * y' ^ n)" by (intro sm) simp
    then have abs: "summable (\<lambda>n. norm (c n * y ^ n))"
      by (rule powser_insidea) (use y' in simp)
    show ?thesis
    proof (rule summable_comparison_test')
      show "summable (\<lambda>n. (1 / a) * norm (c n * y ^ n))" by (rule summable_mult [OF abs])
      fix n :: nat
      have "a \<le> real n + a" by simp
      then have "1 / (real n + a) \<le> 1 / a" using a by (simp add: frac_le)
      then have "norm (c n * y ^ n) * (1 / (real n + a)) \<le> norm (c n * y ^ n) * (1 / a)"
        by (intro mult_left_mono) simp_all
      moreover have "norm (d n * y ^ n) = norm (c n * y ^ n) * (1 / (real n + a))"
        using a by (simp add: d_def abs_mult add_nonneg_pos abs_of_pos)
      ultimately show "norm (d n * y ^ n) \<le> (1 / a) * norm (c n * y ^ n)"
        by (simp only: mult.commute)
    qed
  qed
  have ax: "\<bar>x\<bar> < R" using x by simp
  let ?G = "\<lambda>x. \<Sum>n. d n * x ^ n"
  let ?D = "\<Sum>n. diffs d n * x ^ n"
  have dG: "(?G has_real_derivative ?D) (at x)"
    by (rule termdiffs_strong' [where K = R]) (use smd ax in simp_all)
  have "summable (\<lambda>n. diffs d n * x ^ n)"
    by (rule termdiff_converges [where K = R]) (use smd ax in simp_all)
  then have "(\<lambda>n. real n * d n * x ^ (n - Suc 0)) sums ?D" by (rule diffs_equiv)
  then have 1: "(\<lambda>n. x * (real n * d n * x ^ (n - Suc 0))) sums (x * ?D)" by (rule sums_mult)
  have "(\<lambda>n. d n * x ^ n) sums ?G x" by (rule summable_sums [OF smd [OF ax]])
  then have 2: "(\<lambda>n. a * (d n * x ^ n)) sums (a * ?G x)" by (rule sums_mult)
  have tm: "a * (d n * x ^ n) + x * (real n * d n * x ^ (n - Suc 0)) = c n * x ^ n" for n
  proof -
    have xn: "real n * (x * x ^ (n - Suc 0)) = real n * x ^ n" by (cases n) simp_all
    have "x * (real n * d n * x ^ (n - Suc 0)) = d n * (real n * (x * x ^ (n - Suc 0)))"
      by (simp only: mult_ac)
    then have "a * (d n * x ^ n) + x * (real n * d n * x ^ (n - Suc 0))
        = ((real n + a) * d n) * x ^ n"
      unfolding xn by (simp add: algebra_simps)
    moreover have "(real n + a) * d n = c n"
      using a by (simp add: d_def add_nonneg_pos less_imp_neq [symmetric])
    ultimately show ?thesis by simp
  qed
  from sums_add [OF 2 1] have "(\<lambda>n. c n * x ^ n) sums (a * ?G x + x * ?D)"
    by (simp only: tm)
  then have ode: "a * ?G x + x * ?D = (\<Sum>n. c n * x ^ n)" by (simp add: sums_unique)
  have "((\<lambda>x. x powr a * ?G x) has_real_derivative
          a * x powr (a - 1) * ?G x + x powr a * ?D) (at x)"
    using x(1) by (auto intro!: derivative_eq_intros dG)
  moreover have "x powr a = x powr (a - 1) * x"
    using x(1) by (simp add: powr_diff)
  then have "a * x powr (a - 1) * ?G x + x powr a * ?D
      = x powr (a - 1) * (a * ?G x + x * ?D)"
    by (simp add: algebra_simps)
  ultimately have "((\<lambda>x. x powr a * ?G x) has_real_derivative
      x powr (a - 1) * (\<Sum>n. c n * x ^ n)) (at x)"
    by (simp only: ode)
  then show ?thesis unfolding d_def .
qed

lemma powser_primitive_at_0:
  fixes c :: "nat \<Rightarrow> real"
  assumes sm: "\<And>y. \<bar>y\<bar> < R \<Longrightarrow> summable (\<lambda>n. c n * y ^ n)"
    and R: "0 < R" and a: "0 < a"
    and g: "(g \<longlongrightarrow> 0) F" and g0: "\<forall>\<^sub>F x in F. 0 \<le> g x"
  shows "((\<lambda>x. g x powr a * (\<Sum>n. c n / (real n + a) * g x ^ n)) \<longlongrightarrow> 0) F"
proof -
  define d where "d = (\<lambda>n. c n / (real n + a))"
  have "summable (\<lambda>n. c n * (R / 2) ^ n)" using R by (intro sm) simp
  then have abs: "summable (\<lambda>n. norm (c n * (R / 4) ^ n))"
    by (rule powser_insidea) (use R in simp)
  have smd: "summable (\<lambda>n. d n * (R / 4) ^ n)"
  proof (rule summable_comparison_test')
    show "summable (\<lambda>n. (1 / a) * norm (c n * (R / 4) ^ n))" by (rule summable_mult [OF abs])
    fix n :: nat
    have "a \<le> real n + a" by simp
    then have "1 / (real n + a) \<le> 1 / a" using a by (simp add: frac_le)
    then have "norm (c n * (R / 4) ^ n) * (1 / (real n + a)) \<le> norm (c n * (R / 4) ^ n) * (1 / a)"
      by (intro mult_left_mono) simp_all
    moreover have "norm (d n * (R / 4) ^ n) = norm (c n * (R / 4) ^ n) * (1 / (real n + a))"
      using a by (simp add: d_def abs_mult add_nonneg_pos abs_of_pos)
    ultimately show "norm (d n * (R / 4) ^ n) \<le> (1 / a) * norm (c n * (R / 4) ^ n)"
      by (simp only: mult.commute)
  qed
  have "isCont (\<lambda>x. \<Sum>n. d n * x ^ n) 0"
    by (rule isCont_powser [OF smd]) (use R in simp)
  then have G: "((\<lambda>x. \<Sum>n. d n * g x ^ n) \<longlongrightarrow> (\<Sum>n. d n * 0 ^ n)) F"
    using g by (rule isCont_tendsto_compose)
  have "((\<lambda>x. g x powr a) \<longlongrightarrow> 0) F"
    by (rule tendsto_zero_powrI [OF g tendsto_const g0 a])
  from tendsto_mult [OF this G] show ?thesis by (simp add: d_def)
qed

section \<open>The Gamma integral at the positive integers\<close>

lemma poly_exp_primitive_deriv:
  "(poly_exp_primitive m has_real_derivative x ^ m * exp (- x)) (at x)"
proof (induction m)
  case 0
  have "((\<lambda>x. - exp (- x)) has_real_derivative exp (- x)) (at x)"
    by (auto intro!: derivative_eq_intros)
  then show ?case by (simp add: fun_eq_iff [symmetric] poly_exp_primitive.simps [abs_def])
next
  case (Suc m)
  have "((\<lambda>x. real (Suc m) * poly_exp_primitive m x - x ^ Suc m * exp (- x))
          has_real_derivative
          real (Suc m) * (x ^ m * exp (- x))
            - (real (Suc m) * x ^ m * exp (- x) + x ^ Suc m * (- exp (- x)))) (at x)"
    by (auto intro!: derivative_eq_intros Suc.IH simp del: power_Suc of_nat_Suc)
  moreover have "poly_exp_primitive (Suc m)
      = (\<lambda>x. real (Suc m) * poly_exp_primitive m x - x ^ Suc m * exp (- x))"
    by (rule ext) simp
  ultimately show ?case by (simp add: algebra_simps)
qed

lemma poly_exp_primitive_0: "poly_exp_primitive m 0 = - fact m"
  by (induction m) simp_all

lemma poly_exp_primitive_at_0: "(poly_exp_primitive m \<longlongrightarrow> - fact m) (at_right 0)"
proof -
  have "isCont (poly_exp_primitive m) 0"
    using poly_exp_primitive_deriv by (rule DERIV_isCont)
  then have "(poly_exp_primitive m \<longlongrightarrow> poly_exp_primitive m 0) (at 0)"
    by (simp add: isCont_def)
  then show ?thesis by (simp add: filterlim_at_split poly_exp_primitive_0)
qed

lemma power_exp_at_top: "((\<lambda>x::real. x ^ m * exp (- x)) \<longlongrightarrow> 0) at_top"
  using tendsto_power_div_exp_0 [of m] by (simp add: exp_minus divide_inverse)

lemma poly_exp_primitive_at_top: "(poly_exp_primitive m \<longlongrightarrow> 0) at_top"
proof (induction m)
  case 0
  have "((\<lambda>x::real. - (x ^ 0 * exp (- x))) \<longlongrightarrow> - 0) at_top"
    by (rule tendsto_minus [OF power_exp_at_top])
  then show ?case by (simp add: poly_exp_primitive.simps [abs_def])
next
  case (Suc m)
  have "((\<lambda>x. real (Suc m) * poly_exp_primitive m x - x ^ Suc m * exp (- x))
          \<longlongrightarrow> real (Suc m) * 0 - 0) at_top"
    by (intro tendsto_diff tendsto_mult tendsto_const Suc.IH power_exp_at_top)
  moreover have "poly_exp_primitive (Suc m)
      = (\<lambda>x. real (Suc m) * poly_exp_primitive m x - x ^ Suc m * exp (- x))"
    by (rule ext) simp
  ultimately show ?case by simp
qed

lemma poly_exp_primitive_nonpos: "0 \<le> x \<Longrightarrow> poly_exp_primitive m x \<le> 0"
proof (induction m)
  case 0
  then show ?case by simp
next
  case (Suc m)
  then have "real (Suc m) * poly_exp_primitive m x \<le> 0"
    by (intro mult_nonneg_nonpos) simp_all
  moreover have "0 \<le> x ^ Suc m * exp (- x)" using Suc.prems by simp
  ultimately show ?case by simp
qed

lemma Gamma_integrand_nat:
  "has_integral_0_inf (\<lambda>x. rpow x (real (Suc m) - 1) * exp (- x)) (fact m)"
  unfolding has_integral_0_inf_def
proof (intro exI conjI allI impI)
  fix x :: real assume "0 < x"
  then have "rpow x (real (Suc m) - 1) = x ^ m" using rpow_nat [of x m] by simp
  then show "(poly_exp_primitive m has_real_derivative rpow x (real (Suc m) - 1) * exp (- x)) (at x)"
    using poly_exp_primitive_deriv [of m x] by simp
next
  show "(poly_exp_primitive m \<longlongrightarrow> - fact m) (at_right 0)" by (rule poly_exp_primitive_at_0)
  show "(poly_exp_primitive m \<longlongrightarrow> 0) at_top" by (rule poly_exp_primitive_at_top)
  show "fact m = 0 - (- fact m :: real)" by simp
qed

lemma Gamma_integral_Suc: "Gamma_integral (real (Suc m)) = fact m"
  by (rule Gamma_integral_eq [OF Gamma_integrand_nat])

section \<open>The Gamma integral exists and is positive for every real \<open>z > 0\<close>\<close>

lemma exp_coeff_sums: "(\<lambda>n. exp_coeff n * x ^ n) sums exp (- x)"
proof -
  have "exp_coeff n * x ^ n = (- x) ^ n /\<^sub>R fact n" for n
    by (simp add: exp_coeff_def power_minus [of x] divide_inverse mult.commute)
  then show ?thesis using exp_converges [of "- x"] by simp
qed

lemma exp_coeff_summable: "summable (\<lambda>n. exp_coeff n * x ^ n)"
  using exp_coeff_sums by (rule sums_summable)

lemma exp_coeff_suminf: "(\<Sum>n. exp_coeff n * x ^ n) = exp (- x)"
  using exp_coeff_sums by (rule sums_unique [symmetric])

lemma lower_gamma_deriv:
  assumes "0 < z" and "0 < x"
  shows "(lower_gamma z has_real_derivative x powr (z - 1) * exp (- x)) (at x)"
proof -
  have "((\<lambda>x. x powr z * (\<Sum>n. exp_coeff n / (real n + z) * x ^ n))
      has_real_derivative x powr (z - 1) * (\<Sum>n. exp_coeff n * x ^ n)) (at x)"
    by (rule powser_primitive [where R = "x + 1"]) (use assms exp_coeff_summable in simp_all)
  then show ?thesis by (simp add: exp_coeff_suminf lower_gamma_def [abs_def])
qed

lemma lower_gamma_at_0:
  assumes "0 < z"
  shows "(lower_gamma z \<longlongrightarrow> 0) (at_right 0)"
  unfolding lower_gamma_def
proof (rule powser_primitive_at_0 [where R = 1])
  show "((\<lambda>x::real. x) \<longlongrightarrow> 0) (at_right 0)" by (rule tendsto_ident_at)
  show "\<forall>\<^sub>F x in at_right 0. (0::real) \<le> x"
    using eventually_at_right_less [of "0::real"] by eventually_elim simp
qed (use assms exp_coeff_summable in simp_all)

lemma lower_gamma_strict_mono:
  assumes "0 < z" and "0 < x" and "x < y"
  shows "lower_gamma z x < lower_gamma z y"
proof (rule DERIV_pos_imp_increasing [OF assms(3)])
  fix t assume "x \<le> t" "t \<le> y"
  then have t: "0 < t" using assms(2) by simp
  then have "0 < t powr (z - 1) * exp (- t)" by simp
  with lower_gamma_deriv [OF assms(1) t]
  show "\<exists>d. (lower_gamma z has_real_derivative d) (at t) \<and> 0 < d" by blast
qed

lemma lower_gamma_pos:
  assumes "0 < z" and "0 < x"
  shows "0 < lower_gamma z x"
proof -
  have "\<forall>\<^sub>F t in at_right 0. lower_gamma z t \<le> lower_gamma z (x / 2)"
    unfolding eventually_at_right_field
  proof (intro exI conjI allI impI)
    show "0 < x / 2" using assms(2) by simp
    fix t :: real assume "0 < t" "t < x / 2"
    then show "lower_gamma z t \<le> lower_gamma z (x / 2)"
      using lower_gamma_strict_mono [OF assms(1), of t "x / 2"] by simp
  qed
  with lower_gamma_at_0 [OF assms(1)] have "0 \<le> lower_gamma z (x / 2)"
    by (rule tendsto_upperbound) simp
  moreover have "lower_gamma z (x / 2) < lower_gamma z x"
    using assms(2) by (intro lower_gamma_strict_mono [OF assms(1)]) simp_all
  ultimately show ?thesis by simp
qed

lemma lower_gamma_bounded:
  assumes "0 < z" and "1 \<le> x"
  shows "lower_gamma z x \<le> lower_gamma z 1 - poly_exp_primitive (nat \<lceil>z\<rceil>) 1"
proof -
  define m where "m = nat \<lceil>z\<rceil>"
  define D where "D = (\<lambda>t. poly_exp_primitive m t - lower_gamma z t)"
  have zm: "z - 1 \<le> real m" unfolding m_def using assms(1) by linarith
  have "D 1 \<le> D x"
  proof (rule DERIV_nonneg_imp_nondecreasing [OF assms(2)])
    fix t :: real assume "1 \<le> t" "t \<le> x"
    then have t: "0 < t" by simp
    have "t powr (z - 1) \<le> t powr real m" using zm \<open>1 \<le> t\<close> by (rule powr_mono)
    then have "t powr (z - 1) \<le> t ^ m" using t by (simp add: powr_realpow)
    then have "0 \<le> t ^ m * exp (- t) - t powr (z - 1) * exp (- t)"
      by (simp add: mult_right_mono)
    moreover have "(D has_real_derivative t ^ m * exp (- t) - t powr (z - 1) * exp (- t)) (at t)"
      unfolding D_def
      by (rule DERIV_diff [OF poly_exp_primitive_deriv lower_gamma_deriv [OF assms(1) t]])
    ultimately show "\<exists>d. (D has_real_derivative d) (at t) \<and> 0 \<le> d" by blast
  qed
  moreover have "poly_exp_primitive m x \<le> 0"
    using assms(2) by (intro poly_exp_primitive_nonpos) simp
  ultimately show ?thesis unfolding D_def m_def [symmetric] by simp
qed

lemma lower_gamma_converges:
  assumes "0 < z"
  shows "\<exists>b. (lower_gamma z \<longlongrightarrow> b) at_top \<and> 0 < b"
proof -
  define S where "S = lower_gamma z ` {1..}"
  define b where "b = Sup S"
  define B where "B = lower_gamma z 1 - poly_exp_primitive (nat \<lceil>z\<rceil>) 1"
  have bdd: "bdd_above S"
    unfolding S_def bdd_above_def using lower_gamma_bounded [OF assms] by auto
  have ne: "S \<noteq> {}" unfolding S_def by auto
  have up: "lower_gamma z x \<le> b" if "1 \<le> x" for x
    unfolding b_def using that bdd by (intro cSup_upper) (simp_all add: S_def)
  have "(lower_gamma z \<longlongrightarrow> b) at_top"
  proof (rule increasing_tendsto)
    show "\<forall>\<^sub>F x in at_top. lower_gamma z x \<le> b"
      using eventually_ge_at_top [of "1::real"] by eventually_elim (rule up)
    fix y assume "y < b"
    then obtain s where "s \<in> S" "y < s"
      unfolding b_def using less_cSup_iff [OF ne bdd] by blast
    then obtain x0 where x0: "1 \<le> x0" "y < lower_gamma z x0" unfolding S_def by auto
    have "y < lower_gamma z x" if "x0 \<le> x" for x
    proof (cases "x = x0")
      case True
      then show ?thesis using x0 by simp
    next
      case False
      then have "x0 < x" using that by simp
      then have "lower_gamma z x0 < lower_gamma z x"
        using x0(1) by (intro lower_gamma_strict_mono [OF assms]) simp_all
      then show ?thesis using x0(2) by simp
    qed
    then show "\<forall>\<^sub>F x in at_top. y < lower_gamma z x"
      unfolding eventually_at_top_linorder by blast
  qed
  moreover have "0 < b" using lower_gamma_pos [OF assms, of 1] up [of 1] by simp
  ultimately show ?thesis by blast
qed

lemma Gamma_integral_exists:
  assumes "0 < z"
  shows "\<exists>b>0. has_integral_0_inf (\<lambda>x. rpow x (z - 1) * exp (- x)) b"
proof -
  from lower_gamma_converges [OF assms] obtain b
    where b: "(lower_gamma z \<longlongrightarrow> b) at_top" "0 < b" by blast
  have "has_integral_0_inf (\<lambda>x. rpow x (z - 1) * exp (- x)) b"
    unfolding has_integral_0_inf_def
  proof (intro exI conjI allI impI)
    fix x :: real assume x: "0 < x"
    show "(lower_gamma z has_real_derivative rpow x (z - 1) * exp (- x)) (at x)"
      using lower_gamma_deriv [OF assms x] x by (simp add: rpow_pos)
  next
    show "(lower_gamma z \<longlongrightarrow> 0) (at_right 0)" by (rule lower_gamma_at_0 [OF assms])
    show "(lower_gamma z \<longlongrightarrow> b) at_top" by (rule b(1))
    show "b = b - 0" by simp
  qed
  with b(2) show ?thesis by blast
qed

lemma Gamma_integral_pos: "0 < z \<Longrightarrow> 0 < Gamma_integral z"
  using Gamma_integral_exists [of z] Gamma_integral_eq [of z] by auto

lemma Gamma_has_integral:
  assumes "0 < z"
  shows "has_integral_0_inf (\<lambda>x. rpow x (z - 1) * exp (- x)) (Gamma_integral z)"
  using Gamma_integral_exists [OF assms] Gamma_integral_eq [of z] by auto

lemma Gamma_eq_integral:
  assumes "0 < z"
  shows "Gamma z = Gamma_integral z"
proof (cases "z \<in> \<nat>")
  case True
  then obtain n where n: "z = real n" by (auto elim: Nats_cases)
  with assms obtain m where m: "n = Suc m" by (cases n) auto
  have fl: "nat \<lfloor>real (Suc m)\<rfloor> - 1 = m" by (simp only: floor_of_nat nat_int diff_Suc_1)
  have "real (Suc m) \<in> \<nat>" by (rule of_nat_in_Nats)
  then have "Gamma z = fact m" unfolding Gamma_def n m fl by simp
  then show ?thesis using Gamma_integral_Suc [of m] by (simp add: n m)
next
  case False
  then show ?thesis by (simp add: Gamma_def)
qed

lemma Gamma_pos: "0 < z \<Longrightarrow> 0 < Gamma z"
  by (simp add: Gamma_eq_integral Gamma_integral_pos)

lemma Gamma_1: "Gamma 1 = 1"
  using Gamma_eq_integral [of 1] Gamma_integral_Suc [of 0] by simp

lemma beta_norm_pos:
  assumes "0 < a" and "0 < b"
  shows "0 < Gamma (a + b) / (Gamma a * Gamma b)"
  using assms by (simp add: Gamma_pos add_pos_pos)

lemma posterior_constant_pos:
  assumes "0 < alpha" and "0 < beta" and "k \<le> n"
  shows "0 < posterior_constant n k alpha beta"
  unfolding posterior_constant_def
  using assms beta_norm_pos [of alpha beta] by (intro mult_pos_pos) simp_all

section \<open>The functional equation and the logarithmic convexity of \<open>\<Gamma>\<close>\<close>

lemma powr_exp_at_top:
  "((\<lambda>x::real. x powr z * exp (- x)) \<longlongrightarrow> 0) at_top"
proof (rule tendsto_sandwich [where f = "\<lambda>_. 0" and h = "\<lambda>x. x ^ nat \<lceil>z\<rceil> * exp (- x)"])
  show "\<forall>\<^sub>F x in at_top. (0::real) \<le> x powr z * exp (- x)" by simp
  show "\<forall>\<^sub>F x in at_top. x powr z * exp (- x) \<le> x ^ nat \<lceil>z\<rceil> * exp (- x)"
    using eventually_ge_at_top [of "1::real"]
  proof eventually_elim
    case (elim x)
    have "z \<le> real (nat \<lceil>z\<rceil>)" by linarith
    then have "x powr z \<le> x powr real (nat \<lceil>z\<rceil>)" using elim by (rule powr_mono)
    then have "x powr z \<le> x ^ nat \<lceil>z\<rceil>" using elim by (simp add: powr_realpow)
    then show ?case by (simp add: mult_right_mono)
  qed
  show "((\<lambda>x::real. 0::real) \<longlongrightarrow> 0) at_top" by simp
  show "((\<lambda>x::real. x ^ nat \<lceil>z\<rceil> * exp (- x)) \<longlongrightarrow> 0) at_top" by (rule power_exp_at_top)
qed

lemma Gamma_integral_rec:
  assumes "0 < z"
  shows "Gamma_integral (z + 1) = z * Gamma_integral z"
proof (rule Gamma_integral_eq)
  from Gamma_has_integral [OF assms] obtain F a b
    where F: "\<And>x. 0 < x \<Longrightarrow> (F has_real_derivative rpow x (z - 1) * exp (- x)) (at x)"
    and Fa: "(F \<longlongrightarrow> a) (at_right 0)" and Fb: "(F \<longlongrightarrow> b) at_top"
    and I: "Gamma_integral z = b - a"
    unfolding has_integral_0_inf_def by blast
  define H where "H = (\<lambda>x. z * F x - x powr z * exp (- x))"
  show "has_integral_0_inf (\<lambda>x. rpow x (z + 1 - 1) * exp (- x)) (z * Gamma_integral z)"
    unfolding has_integral_0_inf_def
  proof (intro exI conjI allI impI)
    fix x :: real assume x: "0 < x"
    have "(H has_real_derivative
        z * (x powr (z - 1) * exp (- x))
          - (z * x powr (z - 1) * exp (- x) + x powr z * (- exp (- x)))) (at x)"
      unfolding H_def using x F [OF x]
      by (auto intro!: derivative_eq_intros simp: rpow_pos)
    then show "(H has_real_derivative rpow x (z + 1 - 1) * exp (- x)) (at x)"
      using x by (simp add: rpow_pos algebra_simps)
  next
    have "((\<lambda>x. x powr z * exp (- x)) \<longlongrightarrow> 0 * exp (- 0)) (at_right 0)"
      by (intro tendsto_mult powr_at_right_0 [OF assms] tendsto_exp tendsto_minus
          tendsto_ident_at)
    then have "(H \<longlongrightarrow> z * a - 0) (at_right 0)"
      unfolding H_def by (intro tendsto_diff tendsto_mult_left Fa) simp
    then show "(H \<longlongrightarrow> z * a) (at_right 0)" by simp
    have "(H \<longlongrightarrow> z * b - 0) at_top"
      unfolding H_def by (intro tendsto_diff tendsto_mult_left Fb powr_exp_at_top)
    then show "(H \<longlongrightarrow> z * b) at_top" by simp
    show "z * Gamma_integral z = z * b - z * a" by (simp add: I algebra_simps)
  qed
qed

lemma Gamma_rec:
  assumes "0 < z"
  shows "Gamma (z + 1) = z * Gamma z"
  using assms Gamma_integral_rec [OF assms] by (simp add: Gamma_eq_integral)

lemma Gamma_log_convex:
  assumes x: "0 < x" and y: "0 < y" and l: "0 \<le> l" "l \<le> 1"
  shows "Gamma (l * x + (1 - l) * y) \<le> Gamma x powr l * Gamma y powr (1 - l)"
proof -
  define w where "w = l * x + (1 - l) * y"
  have w: "0 < w"
  proof (cases "l = 0")
    case True
    then show ?thesis using y by (simp add: w_def)
  next
    case False
    then have "0 < l * x" using l x by simp
    moreover have "0 \<le> (1 - l) * y" using l y by simp
    ultimately show ?thesis unfolding w_def by (rule add_pos_nonneg)
  qed
  have "Gamma_integral w \<le> Gamma_integral x powr l * Gamma_integral y powr (1 - l)"
  proof (rule holder_generic [where P = has_integral_0_inf and S = "{0<..}"
        and f = "\<lambda>t. rpow t (x - 1) * exp (- t)" and g = "\<lambda>t. rpow t (y - 1) * exp (- t)"
        and h = "\<lambda>t. rpow t (w - 1) * exp (- t)"])
    fix t :: real assume "t \<in> {0<..}"
    then have t: "0 < t" by simp
    have e: "exp (- t) powr l * exp (- t) powr (1 - l) = exp (- t)"
      by (simp add: powr_add [symmetric])
    have p: "(t powr (x - 1)) powr l * (t powr (y - 1)) powr (1 - l) = t powr (w - 1)"
    proof -
      have "(x - 1) * l + (y - 1) * (1 - l) = w - 1" by (simp add: w_def algebra_simps)
      then show ?thesis by (simp add: powr_powr powr_add [symmetric])
    qed
    have "(t powr (x - 1) * exp (- t)) powr l * (t powr (y - 1) * exp (- t)) powr (1 - l)
        = ((t powr (x - 1)) powr l * (t powr (y - 1)) powr (1 - l))
            * (exp (- t) powr l * exp (- t) powr (1 - l))"
      by (simp add: powr_mult)
    then show "rpow t (w - 1) * exp (- t)
        = (rpow t (x - 1) * exp (- t)) powr l * (rpow t (y - 1) * exp (- t)) powr (1 - l)"
      unfolding e p using t by (simp add: rpow_pos)
    show "0 < rpow t (x - 1) * exp (- t)" "0 < rpow t (y - 1) * exp (- t)"
      using t by (simp_all add: rpow_gt0)
  qed (auto intro: has_integral_0_inf_scale has_integral_0_inf_add has_integral_0_inf_mono
      Gamma_has_integral Gamma_integral_pos x y w l)
  then show ?thesis using x y w by (simp add: Gamma_eq_integral w_def)
qed

section \<open>The binomial series and the Beta integral\<close>

lemma binom_coeff_decreasing:
  assumes e: "- 1 < e" and n: "\<bar>e\<bar> \<le> real n"
  shows "\<bar>binom_coeff e (Suc n)\<bar> \<le> \<bar>binom_coeff e n\<bar>"
proof -
  have "\<bar>real n - e\<bar> \<le> real (Suc n)" using e n by (simp add: abs_le_iff)
  then have "\<bar>real n - e\<bar> / real (Suc n) \<le> 1" by (simp add: divide_le_eq)
  then have "\<bar>binom_coeff e n\<bar> * (\<bar>real n - e\<bar> / real (Suc n)) \<le> \<bar>binom_coeff e n\<bar> * 1"
    by (intro mult_left_mono) simp_all
  then show ?thesis by (simp add: abs_mult del: of_nat_Suc)
qed

lemma binom_coeff_bounded:
  assumes e: "- 1 < e" and n: "nat \<lceil>\<bar>e\<bar>\<rceil> \<le> n"
  shows "\<bar>binom_coeff e n\<bar> \<le> \<bar>binom_coeff e (nat \<lceil>\<bar>e\<bar>\<rceil>)\<bar>"
  using n
proof (induction n rule: dec_induct)
  case base
  show ?case by simp
next
  case (step n)
  have "\<bar>e\<bar> \<le> real n" using step.hyps(1) by linarith
  from binom_coeff_decreasing [OF e this] step.IH show ?case by simp
qed

lemma binom_coeff_summable:
  assumes e: "- 1 < e" and y: "\<bar>y\<bar> < 1"
  shows "summable (\<lambda>n. binom_coeff e n * y ^ n)"
proof (rule summable_comparison_test' [where N = "nat \<lceil>\<bar>e\<bar>\<rceil>"])
  show "summable (\<lambda>n. \<bar>binom_coeff e (nat \<lceil>\<bar>e\<bar>\<rceil>)\<bar> * \<bar>y\<bar> ^ n)"
    by (intro summable_mult summable_geometric) (use y in simp)
  fix n assume "nat \<lceil>\<bar>e\<bar>\<rceil> \<le> n"
  from binom_coeff_bounded [OF e this]
  have "\<bar>binom_coeff e n\<bar> * \<bar>y\<bar> ^ n \<le> \<bar>binom_coeff e (nat \<lceil>\<bar>e\<bar>\<rceil>)\<bar> * \<bar>y\<bar> ^ n"
    by (intro mult_right_mono) simp_all
  then show "norm (binom_coeff e n * y ^ n) \<le> \<bar>binom_coeff e (nat \<lceil>\<bar>e\<bar>\<rceil>)\<bar> * \<bar>y\<bar> ^ n"
    by (simp add: abs_mult power_abs)
qed

lemma binom_series_deriv:
  assumes e: "- 1 < e" and x: "\<bar>x\<bar> < 1"
  shows "(binom_series e has_real_derivative (\<Sum>n. diffs (binom_coeff e) n * x ^ n)) (at x)"
  unfolding binom_series_def [abs_def]
  by (rule termdiffs_strong' [where K = 1]) (use binom_coeff_summable [OF e] x in simp_all)

lemma binom_series_ode:
  assumes e: "- 1 < e" and x: "\<bar>x\<bar> < 1"
  shows "(1 - x) * (\<Sum>n. diffs (binom_coeff e) n * x ^ n) = - e * binom_series e x"
proof -
  let ?c = "binom_coeff e"
  let ?D = "\<Sum>n. diffs ?c n * x ^ n"
  have sm: "\<And>y. norm y < 1 \<Longrightarrow> summable (\<lambda>n. ?c n * y ^ n)"
    using binom_coeff_summable [OF e] by simp
  have smD: "summable (\<lambda>n. diffs ?c n * x ^ n)"
    by (rule termdiff_converges [where K = 1]) (use sm x in simp_all)
  then have "(\<lambda>n. real n * ?c n * x ^ (n - Suc 0)) sums ?D" by (rule diffs_equiv)
  then have 1: "(\<lambda>n. x * (real n * ?c n * x ^ (n - Suc 0))) sums (x * ?D)" by (rule sums_mult)
  have "(\<lambda>n. ?c n * x ^ n) sums binom_series e x"
    unfolding binom_series_def by (rule summable_sums) (use sm x in simp)
  then have 2: "(\<lambda>n. - e * (?c n * x ^ n)) sums (- e * binom_series e x)" by (rule sums_mult)
  have tm: "x * (real n * ?c n * x ^ (n - Suc 0)) + - e * (?c n * x ^ n) = diffs ?c n * x ^ n"
    for n
  proof -
    have xn: "real n * (x * x ^ (n - Suc 0)) = real n * x ^ n" by (cases n) simp_all
    have "x * (real n * ?c n * x ^ (n - Suc 0)) = ?c n * (real n * (x * x ^ (n - Suc 0)))"
      by (simp only: mult_ac)
    then have "x * (real n * ?c n * x ^ (n - Suc 0)) + - e * (?c n * x ^ n)
        = ((real n - e) * ?c n) * x ^ n"
      unfolding xn by (simp add: algebra_simps)
    moreover have "diffs ?c n = (real n - e) * ?c n"
      by (simp add: diffs_def del: of_nat_Suc)
    ultimately show ?thesis by simp
  qed
  from sums_add [OF 1 2] have "(\<lambda>n. diffs ?c n * x ^ n) sums (x * ?D + - e * binom_series e x)"
    by (simp only: tm)
  then have "?D = x * ?D + - e * binom_series e x"
    using summable_sums [OF smD] by (rule sums_unique2 [rotated])
  then show ?thesis by (simp add: algebra_simps)
qed

lemma binom_series_0: "binom_series e 0 = 1"
  by (simp add: binom_series_def powser_zero)

lemma binom_series_eq:
  assumes e: "- 1 < e" and x: "\<bar>x\<bar> < 1"
  shows "binom_series e x = (1 - x) powr e"
proof -
  define g where "g = (\<lambda>x. binom_series e x * (1 - x) powr (- e))"
  have dg: "(g has_real_derivative 0) (at t)" if "t \<in> {- 1<..<1}" for t
  proof -
    have t: "\<bar>t\<bar> < 1" "0 < 1 - t" using that by auto
    let ?D = "\<Sum>n. diffs (binom_coeff e) n * t ^ n"
    have "(g has_real_derivative
        ?D * (1 - t) powr (- e) + binom_series e t * (- e * (1 - t) powr (- e - 1) * (0 - 1)))
        (at t)"
      unfolding g_def using t(2)
      by (auto intro!: derivative_eq_intros binom_series_deriv [OF e t(1)])
    moreover have pw: "(1 - t) powr (- e) = (1 - t) powr (- e - 1) * (1 - t)"
      using t(2) by (simp add: powr_diff)
    have "?D * (1 - t) powr (- e) + binom_series e t * (- e * (1 - t) powr (- e - 1) * (0 - 1))
        = (1 - t) powr (- e - 1) * ((1 - t) * ?D + e * binom_series e t)"
      by (simp only: pw) (simp add: algebra_simps)
    ultimately show ?thesis by (simp only: binom_series_ode [OF e t(1)]) simp
  qed
  have "g x = g 0"
    by (rule DERIV_isconst3 [where a = "- 1" and b = 1]) (use x dg in auto)
  then have "binom_series e x * (1 - x) powr (- e) = 1"
    by (simp add: g_def binom_series_0)
  moreover have "0 < 1 - x" using x by auto
  ultimately show ?thesis by (simp add: powr_minus field_simps)
qed

lemma beta_primitive_deriv:
  assumes a: "0 < a" and b: "0 < b" and x: "0 < x" "x < 1"
  shows "(beta_primitive a b has_real_derivative x powr (a - 1) * (1 - x) powr (b - 1)) (at x)"
proof -
  have e: "- 1 < b - 1" using b by simp
  have "((\<lambda>x. x powr a * (\<Sum>n. binom_coeff (b - 1) n / (real n + a) * x ^ n))
      has_real_derivative x powr (a - 1) * (\<Sum>n. binom_coeff (b - 1) n * x ^ n)) (at x)"
    by (rule powser_primitive [where R = 1]) (use binom_coeff_summable [OF e] a x in simp_all)
  moreover have "(\<Sum>n. binom_coeff (b - 1) n * x ^ n) = (1 - x) powr (b - 1)"
    using binom_series_eq [OF e, of x] x by (simp add: binom_series_def)
  ultimately show ?thesis by (simp add: beta_primitive_def [abs_def])
qed

lemma beta_primitive_tendsto_0:
  assumes a: "0 < a" and b: "0 < b"
    and g: "(g \<longlongrightarrow> 0) F" and g0: "\<forall>\<^sub>F x in F. 0 \<le> g x"
  shows "((\<lambda>x. beta_primitive a b (g x)) \<longlongrightarrow> 0) F"
proof -
  have e: "- 1 < b - 1" using b by simp
  show ?thesis unfolding beta_primitive_def
    by (rule powser_primitive_at_0 [where R = 1])
      (use binom_coeff_summable [OF e] a g g0 in simp_all)
qed

lemma beta_primitive_reflect:
  assumes a: "0 < a" and b: "0 < b" and x: "0 < x" "x < 1"
  shows "beta_primitive a b x + beta_primitive b a (1 - x)
       = beta_primitive a b (1/2) + beta_primitive b a (1/2)"
proof -
  define h where "h = (\<lambda>x. beta_primitive a b x + beta_primitive b a (1 - x))"
  have dh: "(h has_real_derivative 0) (at t)" if "t \<in> {0<..<1}" for t
  proof -
    have t: "0 < t" "t < 1" "0 < 1 - t" "1 - t < 1" using that by auto
    have "((\<lambda>x. beta_primitive b a (1 - x)) has_real_derivative
        (1 - t) powr (b - 1) * (1 - (1 - t)) powr (a - 1) * (0 - 1)) (at t)"
    proof (rule DERIV_chain2 [where f = "beta_primitive b a" and g = "\<lambda>x. 1 - x"])
      show "(beta_primitive b a has_real_derivative
          (1 - t) powr (b - 1) * (1 - (1 - t)) powr (a - 1)) (at (1 - t))"
        by (rule beta_primitive_deriv [OF b a t(3,4)])
      show "((\<lambda>x. 1 - x) has_real_derivative 0 - 1) (at t)"
        by (auto intro!: derivative_eq_intros)
    qed
    with beta_primitive_deriv [OF a b t(1,2)]
    have "(h has_real_derivative
        t powr (a - 1) * (1 - t) powr (b - 1)
          + (1 - t) powr (b - 1) * (1 - (1 - t)) powr (a - 1) * (0 - 1)) (at t)"
      unfolding h_def by (rule DERIV_add)
    then show ?thesis by simp
  qed
  have "h x = h (1/2)"
    by (rule DERIV_isconst3 [where a = 0 and b = 1]) (use x dh in auto)
  then show ?thesis by (simp add: h_def)
qed

lemma beta_kernel_has_integral:
  assumes a: "0 < a" and b: "0 < b"
  shows "has_integral_0_1 (\<lambda>u. rpow u (a - 1) * rpow (1 - u) (b - 1)) (beta_value a b)"
  unfolding has_integral_0_1_def
proof (intro exI conjI allI impI)
  fix x :: real assume x: "0 < x \<and> x < 1"
  then show "(beta_primitive a b has_real_derivative rpow x (a - 1) * rpow (1 - x) (b - 1)) (at x)"
    using beta_primitive_deriv [OF a b, of x] by (simp add: rpow_pos)
next
  show "(beta_primitive a b \<longlongrightarrow> 0) (at_right 0)"
  proof (rule beta_primitive_tendsto_0 [OF a b])
    show "((\<lambda>x::real. x) \<longlongrightarrow> 0) (at_right 0)" by (rule tendsto_ident_at)
    show "\<forall>\<^sub>F x in at_right 0. (0::real) \<le> x"
      using eventually_at_right_less [of "0::real"] by eventually_elim simp
  qed
  have "((\<lambda>x. beta_primitive b a (1 - x)) \<longlongrightarrow> 0) (at_left 1)"
  proof (rule beta_primitive_tendsto_0 [OF b a])
    have "((\<lambda>x::real. 1 - x) \<longlongrightarrow> 1 - 1) (at_left 1)"
      by (intro tendsto_diff tendsto_const tendsto_ident_at)
    then show "((\<lambda>x::real. 1 - x) \<longlongrightarrow> 0) (at_left 1)" by simp
    show "\<forall>\<^sub>F x in at_left 1. (0::real) \<le> 1 - x"
      unfolding eventually_at_left_field by (intro exI [of _ 0]) simp
  qed
  then have "((\<lambda>x. beta_value a b - beta_primitive b a (1 - x)) \<longlongrightarrow> beta_value a b - 0) (at_left 1)"
    by (intro tendsto_diff tendsto_const)
  moreover have "\<forall>\<^sub>F x in at_left 1. beta_value a b - beta_primitive b a (1 - x) = beta_primitive a b x"
    unfolding eventually_at_left_field
  proof (intro exI [of _ 0] conjI allI impI)
    fix x :: real assume "0 < x" "x < 1"
    from beta_primitive_reflect [OF a b this]
    show "beta_value a b - beta_primitive b a (1 - x) = beta_primitive a b x"
      by (simp add: beta_value_def)
  qed simp
  ultimately have "(beta_primitive a b \<longlongrightarrow> beta_value a b - 0) (at_left 1)"
    by (rule Lim_transform_eventually)
  then show "(beta_primitive a b \<longlongrightarrow> beta_value a b) (at_left 1)" by simp
  show "beta_value a b = beta_value a b - 0" by simp
qed

lemma Beta_has_integral:
  assumes "0 < a" and "0 < b"
  shows "has_integral_0_1 (\<lambda>u. rpow u (a - 1) * rpow (1 - u) (b - 1)) (Beta_integral a b)"
  using beta_kernel_has_integral [OF assms] Beta_integral_eq [of a b] by simp

lemma Beta_integral_pos:
  assumes "0 < a" and "0 < b"
  shows "0 < Beta_integral a b"
  by (rule has_integral_0_1_pos [OF Beta_has_integral [OF assms]]) (simp add: rpow_gt0)

lemma Beta_integral_rec:
  assumes a: "0 < a" and b: "0 < b"
  shows "(a + b) * Beta_integral (a + 1) b = a * Beta_integral a b"
proof -
  define E where "E = (\<lambda>u::real. u powr a * (1 - u) powr b)"
  let ?k = "\<lambda>u. rpow u (a - 1) * rpow (1 - u) (b - 1)"
  let ?k' = "\<lambda>u. rpow u (a + 1 - 1) * rpow (1 - u) (b - 1)"
  have "has_integral_0_1 (\<lambda>u. a * ?k u + (- (a + b)) * ?k' u) 0"
    unfolding has_integral_0_1_def
  proof (intro exI conjI allI impI)
    fix x :: real assume "0 < x \<and> x < 1"
    then have x: "0 < x" "0 < 1 - x" by simp_all
    have "(E has_real_derivative
        a * x powr (a - 1) * (1 - x) powr b + x powr a * (b * (1 - x) powr (b - 1) * (0 - 1)))
        (at x)"
      unfolding E_def using x by (auto intro!: derivative_eq_intros)
    moreover have "x powr a = x powr (a - 1) * x" using x by (simp add: powr_diff)
    moreover have "(1 - x) powr b = (1 - x) powr (b - 1) * (1 - x)"
      using x by (simp add: powr_diff)
    ultimately have "(E has_real_derivative
        a * x powr (a - 1) * ((1 - x) powr (b - 1) * (1 - x))
          + x powr (a - 1) * x * (b * (1 - x) powr (b - 1) * (0 - 1))) (at x)"
      by simp
    moreover have "a * x powr (a - 1) * ((1 - x) powr (b - 1) * (1 - x))
          + x powr (a - 1) * x * (b * (1 - x) powr (b - 1) * (0 - 1))
        = a * (x powr (a - 1) * (1 - x) powr (b - 1))
          + (- (a + b)) * (x powr (a - 1) * x * (1 - x) powr (b - 1))"
      by (simp add: algebra_simps)
    moreover have "rpow x (a + 1 - 1) = x powr (a - 1) * x"
      using x by (simp add: rpow_pos powr_diff)
    ultimately show "(E has_real_derivative a * ?k x + (- (a + b)) * ?k' x) (at x)"
      using x by (simp add: rpow_pos)
  next
    have "((\<lambda>u::real. u powr a * (1 - u) powr b) \<longlongrightarrow> 0 * (1 - 0) powr b) (at_right 0)"
      by (intro tendsto_mult powr_at_right_0 [OF a] tendsto_powr tendsto_diff tendsto_const
          tendsto_ident_at) simp
    then show "(E \<longlongrightarrow> 0) (at_right 0)" by (simp add: E_def)
    have "((\<lambda>u::real. (1 - u) powr b) \<longlongrightarrow> 0) (at_left 1)"
    proof (rule tendsto_zero_powrI [OF _ tendsto_const _ b])
      have "((\<lambda>u::real. 1 - u) \<longlongrightarrow> 1 - 1) (at_left 1)"
        by (intro tendsto_diff tendsto_const tendsto_ident_at)
      then show "((\<lambda>u::real. 1 - u) \<longlongrightarrow> 0) (at_left 1)" by simp
      show "\<forall>\<^sub>F u in at_left 1. (0::real) \<le> 1 - u"
        unfolding eventually_at_left_field by (intro exI [of _ 0]) simp
    qed
    moreover have "((\<lambda>u::real. u powr a) \<longlongrightarrow> 1 powr a) (at_left 1)"
      by (intro tendsto_powr tendsto_const tendsto_ident_at) simp
    ultimately have "((\<lambda>u::real. u powr a * (1 - u) powr b) \<longlongrightarrow> 1 powr a * 0) (at_left 1)"
      by (intro tendsto_mult)
    then show "(E \<longlongrightarrow> 0) (at_left 1)" by (simp add: E_def)
    show "(0::real) = 0 - 0" by simp
  qed
  moreover have "has_integral_0_1 (\<lambda>u. a * ?k u + (- (a + b)) * ?k' u)
      (a * Beta_integral a b + (- (a + b)) * Beta_integral (a + 1) b)"
    by (intro has_integral_0_1_add has_integral_0_1_scale Beta_has_integral a b) (use a in simp)
  ultimately have "a * Beta_integral a b + (- (a + b)) * Beta_integral (a + 1) b = 0"
    by (rule has_integral_0_1_unique [symmetric])
  then show ?thesis by (simp add: algebra_simps)
qed

lemma Beta_integral_1:
  assumes b: "0 < b"
  shows "Beta_integral 1 b = 1 / b"
proof (rule Beta_integral_eq)
  show "has_integral_0_1 (\<lambda>u. rpow u (1 - 1) * rpow (1 - u) (b - 1)) (1 / b)"
    unfolding has_integral_0_1_def
  proof (intro exI conjI allI impI)
    fix x :: real assume "0 < x \<and> x < 1"
    then have x: "0 < 1 - x" by simp
    have "((\<lambda>u. - ((1 - u) powr b / b)) has_real_derivative
        - (b * (1 - x) powr (b - 1) * (0 - 1) / b)) (at x)"
      using x b by (auto intro!: derivative_eq_intros)
    then show "((\<lambda>u. - ((1 - u) powr b / b)) has_real_derivative
        rpow x (1 - 1) * rpow (1 - x) (b - 1)) (at x)"
      using x b by (simp add: rpow_pos rpow_zero_exp)
  next
    have "((\<lambda>u::real. - ((1 - u) powr b / b)) \<longlongrightarrow> - ((1 - 0) powr b / b)) (at_right 0)"
      by (intro tendsto_minus tendsto_divide tendsto_powr tendsto_diff tendsto_const
          tendsto_ident_at) (use b in simp_all)
    then show "((\<lambda>u::real. - ((1 - u) powr b / b)) \<longlongrightarrow> - (1 / b)) (at_right 0)" by simp
    have "((\<lambda>u::real. (1 - u) powr b) \<longlongrightarrow> 0) (at_left 1)"
    proof (rule tendsto_zero_powrI [OF _ tendsto_const _ b])
      have "((\<lambda>u::real. 1 - u) \<longlongrightarrow> 1 - 1) (at_left 1)"
        by (intro tendsto_diff tendsto_const tendsto_ident_at)
      then show "((\<lambda>u::real. 1 - u) \<longlongrightarrow> 0) (at_left 1)" by simp
      show "\<forall>\<^sub>F u in at_left 1. (0::real) \<le> 1 - u"
        unfolding eventually_at_left_field by (intro exI [of _ 0]) simp
    qed
    then have "((\<lambda>u::real. - ((1 - u) powr b / b)) \<longlongrightarrow> - (0 / b)) (at_left 1)"
      by (intro tendsto_minus tendsto_divide tendsto_const) (use b in simp_all)
    then show "((\<lambda>u::real. - ((1 - u) powr b / b)) \<longlongrightarrow> 0) (at_left 1)" by simp
    show "1 / b = 0 - - (1 / b)" by simp
  qed
qed

lemma Beta_integral_log_convex:
  assumes x: "0 < x" and y: "0 < y" and b: "0 < b" and l: "0 \<le> l" "l \<le> 1"
  shows "Beta_integral (l * x + (1 - l) * y) b
       \<le> Beta_integral x b powr l * Beta_integral y b powr (1 - l)"
proof -
  define w where "w = l * x + (1 - l) * y"
  have w: "0 < w"
  proof (cases "l = 0")
    case True
    then show ?thesis using y by (simp add: w_def)
  next
    case False
    then have "0 < l * x" using l x by simp
    moreover have "0 \<le> (1 - l) * y" using l y by simp
    ultimately show ?thesis unfolding w_def by (rule add_pos_nonneg)
  qed
  have "Beta_integral w b \<le> Beta_integral x b powr l * Beta_integral y b powr (1 - l)"
  proof (rule holder_generic [where P = has_integral_0_1 and S = "{0<..<1}"
        and f = "\<lambda>t. rpow t (x - 1) * rpow (1 - t) (b - 1)"
        and g = "\<lambda>t. rpow t (y - 1) * rpow (1 - t) (b - 1)"
        and h = "\<lambda>t. rpow t (w - 1) * rpow (1 - t) (b - 1)"])
    fix t :: real assume "t \<in> {0<..<1}"
    then have t: "0 < t" "0 < 1 - t" by simp_all
    define q where "q = (1 - t) powr (b - 1)"
    have q: "0 < q" using t by (simp add: q_def)
    have e: "q powr l * q powr (1 - l) = q" using q by (simp add: powr_add [symmetric])
    have p: "(t powr (x - 1)) powr l * (t powr (y - 1)) powr (1 - l) = t powr (w - 1)"
    proof -
      have "(x - 1) * l + (y - 1) * (1 - l) = w - 1" by (simp add: w_def algebra_simps)
      then show ?thesis by (simp add: powr_powr powr_add [symmetric])
    qed
    have "(t powr (x - 1) * q) powr l * (t powr (y - 1) * q) powr (1 - l)
        = ((t powr (x - 1)) powr l * (t powr (y - 1)) powr (1 - l))
            * (q powr l * q powr (1 - l))"
      using q by (simp add: powr_mult)
    then show "rpow t (w - 1) * rpow (1 - t) (b - 1)
        = (rpow t (x - 1) * rpow (1 - t) (b - 1)) powr l
            * (rpow t (y - 1) * rpow (1 - t) (b - 1)) powr (1 - l)"
      unfolding e p using t by (simp add: rpow_pos q_def)
    show "0 < rpow t (x - 1) * rpow (1 - t) (b - 1)" "0 < rpow t (y - 1) * rpow (1 - t) (b - 1)"
      using t by (simp_all add: rpow_gt0)
  qed (auto intro: has_integral_0_1_scale has_integral_0_1_add has_integral_0_1_mono
      Beta_has_integral Beta_integral_pos x y w b l)
  then show ?thesis by (simp add: w_def)
qed

section \<open>The Bohr-Mollerup argument\<close>

text \<open>
  Two functions with the properties \<open>gamma_like\<close> agree on the positive reals: both
  lie between \<open>n! (n + x)^(x - 1)\<close> and \<open>(n - 1)! n^x\<close> at \<open>n + x\<close>, and the quotient of
  these bounds tends to \<open>1\<close>. Applied to \<open>\<Gamma>\<close> and to
  \<open>a \<mapsto> B(a, b) \<Gamma>(a + b) / \<Gamma>(b)\<close> this gives the Beta integral as a quotient of
  Gamma values.
\<close>

lemma gamma_like_pos: "gamma_like f \<Longrightarrow> 0 < x \<Longrightarrow> 0 < f x"
  unfolding gamma_like_def by blast

lemma gamma_like_rec: "gamma_like f \<Longrightarrow> 0 < x \<Longrightarrow> f (x + 1) = x * f x"
  unfolding gamma_like_def by blast

lemma gamma_like_one: "gamma_like f \<Longrightarrow> f 1 = 1"
  unfolding gamma_like_def by blast

lemma gamma_like_convex:
  "gamma_like f \<Longrightarrow> 0 < x \<Longrightarrow> 0 < y \<Longrightarrow> 0 \<le> l \<Longrightarrow> l \<le> 1
    \<Longrightarrow> f (l * x + (1 - l) * y) \<le> f x powr l * f y powr (1 - l)"
  unfolding gamma_like_def by blast

lemma gamma_like_nat:
  assumes "gamma_like f"
  shows "f (real (Suc n)) = fact n"
proof (induction n)
  case 0
  show ?case using gamma_like_one [OF assms] by simp
next
  case (Suc n)
  have "f (real (Suc n) + 1) = real (Suc n) * f (real (Suc n))"
    by (rule gamma_like_rec [OF assms]) simp
  moreover have "real (Suc (Suc n)) = real (Suc n) + 1" by simp
  ultimately have "f (real (Suc (Suc n))) = real (Suc n) * fact n"
    using Suc.IH by (simp only:)
  then show ?case by (simp only: fact_Suc of_nat_mult)
qed

lemma gamma_like_shift:
  assumes f: "gamma_like f" and x: "0 < x"
  shows "f (x + real n) = pochhammer x n * f x"
proof (induction n)
  case 0
  show ?case by simp
next
  case (Suc n)
  have "0 < x + real n" using x by (simp add: add_pos_nonneg)
  then have r: "f (x + real n + 1) = (x + real n) * f (x + real n)"
    by (rule gamma_like_rec [OF f])
  have e: "x + real (Suc n) = x + real n + 1" by simp
  show ?case unfolding e r Suc.IH pochhammer_Suc by (simp add: mult_ac)
qed

lemma gamma_like_upper:
  assumes f: "gamma_like f" and x: "0 < x" "x \<le> 1"
  shows "f (real (Suc n) + x) \<le> fact n * real (Suc n) powr x"
proof -
  define N where "N = real (Suc n)"
  have N: "0 < N" by (simp add: N_def)
  have fN: "f N = fact n" unfolding N_def by (rule gamma_like_nat [OF f])
  have fN1: "f (N + 1) = N * fact n" using gamma_like_rec [OF f N] by (simp only: fN)
  have "f (x * (N + 1) + (1 - x) * N) \<le> f (N + 1) powr x * f N powr (1 - x)"
    by (rule gamma_like_convex [OF f]) (use N x in simp_all)
  moreover have "x * (N + 1) + (1 - x) * N = N + x" by (simp add: algebra_simps)
  moreover have "(N * fact n) powr x * fact n powr (1 - x) = fact n * N powr x"
  proof -
    have "(fact n :: real) powr x * fact n powr (1 - x) = fact n"
      by (simp add: powr_add [symmetric])
    moreover have "(N * fact n) powr x = N powr x * fact n powr x"
      using N by (simp add: powr_mult)
    ultimately show ?thesis by (simp add: mult.assoc mult.commute)
  qed
  ultimately have "f (N + x) \<le> fact n * N powr x" by (simp only: fN fN1)
  then show ?thesis unfolding N_def .
qed

lemma gamma_like_lower:
  assumes f: "gamma_like f" and x: "0 < x" "x \<le> 1"
  shows "fact (Suc n) * (real (Suc n) + x) powr (x - 1) \<le> f (real (Suc n) + x)"
proof -
  define N where "N = real (Suc n)"
  define v where "v = f (N + x)"
  have N: "0 < N" by (simp add: N_def)
  have Nx: "0 < N + x" using N x by simp
  have v: "0 < v" unfolding v_def by (rule gamma_like_pos [OF f Nx])
  have "f (real (Suc (Suc n))) = fact (Suc n)" by (rule gamma_like_nat [OF f])
  moreover have "real (Suc (Suc n)) = N + 1" by (simp add: N_def)
  ultimately have fN1: "f (N + 1) = fact (Suc n)" by (simp only:)
  have fNx1: "f (N + x + 1) = (N + x) * v"
    unfolding v_def by (rule gamma_like_rec [OF f Nx])
  have "f (x * (N + x) + (1 - x) * (N + x + 1)) \<le> f (N + x) powr x * f (N + x + 1) powr (1 - x)"
    by (rule gamma_like_convex [OF f]) (use Nx x in simp_all)
  moreover have "x * (N + x) + (1 - x) * (N + x + 1) = N + 1" by (simp add: algebra_simps)
  moreover have "v powr x * ((N + x) * v) powr (1 - x) = v * (N + x) powr (1 - x)"
  proof -
    have "v powr x * v powr (1 - x) = v" using v by (simp add: powr_add [symmetric])
    moreover have "((N + x) * v) powr (1 - x) = (N + x) powr (1 - x) * v powr (1 - x)"
      using v Nx by (simp add: powr_mult)
    ultimately show ?thesis by (simp add: mult.assoc mult.left_commute)
  qed
  ultimately have "fact (Suc n) \<le> v * (N + x) powr (1 - x)"
    by (simp only: fN1 fNx1 v_def [symmetric])
  then have "fact (Suc n) * (N + x) powr (x - 1)
      \<le> v * (N + x) powr (1 - x) * (N + x) powr (x - 1)"
    by (intro mult_right_mono) simp_all
  moreover have "(N + x) powr (1 - x) * (N + x) powr (x - 1) = 1"
    using Nx by (simp add: powr_add [symmetric])
  ultimately have "fact (Suc n) * (N + x) powr (x - 1) \<le> v" by (simp add: mult.assoc)
  then show ?thesis unfolding v_def N_def .
qed

lemma powr_ratio_bound:
  fixes N x :: real
  assumes N: "1 \<le> N" and x: "0 < x" "x \<le> 1"
  shows "N powr x \<le> N * (N + x) powr (x - 1) * (1 + x / N)"
proof -
  have N0: "0 < N" and Nx: "0 < N + x" using N x by simp_all
  define t where "t = (N + x) / N"
  have t: "1 \<le> t" using N0 x by (simp add: t_def)
  have "t powr (1 - x) \<le> t powr 1" using t x by (intro powr_mono) simp_all
  then have t1: "t powr (1 - x) \<le> t" using t by simp
  have "N + x = N * t" using N0 by (simp add: t_def)
  then have "(N + x) powr (x - 1) = N powr (x - 1) * t powr (x - 1)"
    using N0 t by (simp add: powr_mult)
  then have "N * (N + x) powr (x - 1) * (1 + x / N)
      = (N * N powr (x - 1)) * (t powr (x - 1) * t)"
    using N0 by (simp add: t_def field_simps)
  also have "N * N powr (x - 1) = N powr x" using N0 by (simp add: powr_diff)
  finally have eq: "N * (N + x) powr (x - 1) * (1 + x / N) = N powr x * (t powr (x - 1) * t)" .
  have "t powr (x - 1) * t powr (1 - x) = 1" using t by (simp add: powr_add [symmetric])
  moreover have "t powr (x - 1) * t powr (1 - x) \<le> t powr (x - 1) * t"
    by (intro mult_left_mono t1) simp
  ultimately have "1 \<le> t powr (x - 1) * t" by simp
  then have "N powr x * 1 \<le> N powr x * (t powr (x - 1) * t)"
    by (intro mult_left_mono) simp_all
  then show ?thesis unfolding eq by simp
qed

lemma gamma_like_le:
  assumes f: "gamma_like f" and g: "gamma_like g" and x: "0 < x" "x \<le> 1"
  shows "f x \<le> g x"
proof (rule LIMSEQ_le_const)
  have "(\<lambda>n. g x * (1 + x * inverse (real (Suc n)))) \<longlonglongrightarrow> g x * (1 + x * 0)"
    by (intro tendsto_mult tendsto_add tendsto_const LIMSEQ_inverse_real_of_nat)
  then show "(\<lambda>n. g x * (1 + x * inverse (real (Suc n)))) \<longlonglongrightarrow> g x" by simp
  have "f x \<le> g x * (1 + x * inverse (real (Suc n)))" for n
  proof -
    define N where "N = real (Suc n)"
    define p where "p = pochhammer x (Suc n)"
    have N: "1 \<le> N" "0 < N" by (simp_all add: N_def)
    have p: "0 < p" unfolding p_def using x(1) by (rule pochhammer_pos)
    have e: "N + x = x + real (Suc n)" by (simp add: N_def)
    have fs: "f (N + x) = p * f x"
      unfolding e p_def by (rule gamma_like_shift [OF f x(1)])
    have gs: "g (N + x) = p * g x"
      unfolding e p_def by (rule gamma_like_shift [OF g x(1)])
    have "f (N + x) \<le> fact n * N powr x"
      unfolding N_def by (rule gamma_like_upper [OF f x])
    then have up: "p * f x \<le> fact n * N powr x" by (simp only: fs)
    have "fact (Suc n) * (N + x) powr (x - 1) \<le> g (N + x)"
      unfolding N_def by (rule gamma_like_lower [OF g x])
    moreover have "fact (Suc n) = N * fact n" by (simp add: N_def)
    ultimately have lo: "fact n * (N * (N + x) powr (x - 1)) \<le> p * g x"
      by (simp only: gs) (simp add: mult_ac)
    have "p * f x \<le> fact n * N powr x" by (rule up)
    also have "\<dots> \<le> fact n * (N * (N + x) powr (x - 1) * (1 + x / N))"
      by (intro mult_left_mono powr_ratio_bound N x) simp
    also have "\<dots> = (fact n * (N * (N + x) powr (x - 1))) * (1 + x / N)"
      by (simp add: mult.assoc)
    also have "\<dots> \<le> (p * g x) * (1 + x / N)"
      using lo N x by (intro mult_right_mono) simp_all
    finally have "p * f x \<le> p * (g x * (1 + x / N))" by (simp add: mult.assoc)
    then have "f x \<le> g x * (1 + x / N)" using p by simp
    then show ?thesis unfolding N_def by (simp add: divide_inverse)
  qed
  then show "\<exists>M. \<forall>n\<ge>M. f x \<le> g x * (1 + x * inverse (real (Suc n)))" by blast
qed

lemma gamma_like_unique:
  assumes f: "gamma_like f" and g: "gamma_like g" and x: "0 < x"
  shows "f x = g x"
proof -
  define n where "n = nat \<lceil>x\<rceil> - 1"
  define y where "y = x - real n"
  have y: "0 < y" "y \<le> 1" unfolding y_def n_def using x by linarith+
  have "f y = g y"
    using gamma_like_le [OF f g y] gamma_like_le [OF g f y] by simp
  moreover have "x = y + real n" by (simp add: y_def)
  ultimately show ?thesis
    using gamma_like_shift [OF f y(1), of n] gamma_like_shift [OF g y(1), of n] by simp
qed

lemma gamma_like_Gamma: "gamma_like Gamma"
  unfolding gamma_like_def
  by (auto simp: Gamma_pos Gamma_rec Gamma_1 intro: Gamma_log_convex)

lemma gamma_like_Beta:
  assumes b: "0 < b"
  shows "gamma_like (\<lambda>a. Beta_integral a b * Gamma (a + b) / Gamma b)"
  unfolding gamma_like_def
proof (intro conjI allI impI)
  fix x :: real assume x: "0 < x"
  show "0 < Beta_integral x b * Gamma (x + b) / Gamma b"
    using x b by (simp add: Beta_integral_pos Gamma_pos add_pos_pos)
  have xb: "0 < x + b" using x b by simp
  have e: "x + 1 + b = x + b + 1" by simp
  have "Beta_integral (x + 1) b * Gamma (x + 1 + b)
      = ((x + b) * Beta_integral (x + 1) b) * Gamma (x + b)"
    unfolding e Gamma_rec [OF xb] by simp
  also have "\<dots> = x * Beta_integral x b * Gamma (x + b)"
    by (simp only: Beta_integral_rec [OF x b])
  finally show "Beta_integral (x + 1) b * Gamma (x + 1 + b) / Gamma b
      = x * (Beta_integral x b * Gamma (x + b) / Gamma b)"
    by simp
next
  have "Gamma (b + 1) = b * Gamma b" by (rule Gamma_rec [OF b])
  moreover have "1 + b = b + 1" by simp
  ultimately have "Gamma (1 + b) = b * Gamma b" by (simp only:)
  then show "Beta_integral 1 b * Gamma (1 + b) / Gamma b = 1"
    using b Gamma_pos [OF b] by (simp add: Beta_integral_1)
next
  fix x y l :: real
  assume x: "0 < x" and y: "0 < y" and l: "0 \<le> l \<and> l \<le> 1"
  define w where "w = l * x + (1 - l) * y"
  define G where "G = Gamma b"
  define Bx where "Bx = Beta_integral x b"
  define By where "By = Beta_integral y b"
  define Gx where "Gx = Gamma (x + b)"
  define Gy where "Gy = Gamma (y + b)"
  have w: "0 < w" unfolding w_def using x y l by (intro convex_comb_pos) simp_all
  have G: "0 < G" unfolding G_def by (rule Gamma_pos [OF b])
  have Bx: "0 < Bx" and By: "0 < By"
    using x y b by (simp_all add: Bx_def By_def Beta_integral_pos)
  have Gx: "0 < Gx" and Gy: "0 < Gy"
    using x y b by (simp_all add: Gx_def Gy_def Gamma_pos add_pos_pos)
  have 1: "Beta_integral w b \<le> Bx powr l * By powr (1 - l)"
    unfolding w_def Bx_def By_def using x y b l by (intro Beta_integral_log_convex) simp_all
  have "Gamma (l * (x + b) + (1 - l) * (y + b)) \<le> Gx powr l * Gy powr (1 - l)"
    unfolding Gx_def Gy_def using x y b l by (intro Gamma_log_convex) (simp_all add: add_pos_pos)
  moreover have "l * (x + b) + (1 - l) * (y + b) = w + b" by (simp add: w_def algebra_simps)
  ultimately have 2: "Gamma (w + b) \<le> Gx powr l * Gy powr (1 - l)" by simp
  have "Beta_integral w b * Gamma (w + b)
      \<le> (Bx powr l * By powr (1 - l)) * (Gx powr l * Gy powr (1 - l))"
    using w b by (intro mult_mono 1 2) (simp_all add: less_imp_le Gamma_pos add_pos_pos)
  then have "Beta_integral w b * Gamma (w + b) / G
      \<le> (Bx powr l * By powr (1 - l)) * (Gx powr l * Gy powr (1 - l)) / G"
    using G by (simp add: divide_right_mono)
  moreover have "(Bx * Gx / G) powr l * (By * Gy / G) powr (1 - l)
      = (Bx powr l * By powr (1 - l)) * (Gx powr l * Gy powr (1 - l)) / G"
  proof -
    have "G powr l * G powr (1 - l) = G" using G by (simp add: powr_add [symmetric])
    moreover have "(Bx * Gx / G) powr l = Bx powr l * Gx powr l / G powr l"
      using Bx Gx G by (simp add: powr_mult powr_divide)
    moreover have "(By * Gy / G) powr (1 - l) = By powr (1 - l) * Gy powr (1 - l) / G powr (1 - l)"
      using By Gy G by (simp add: powr_mult powr_divide)
    ultimately show ?thesis by (simp add: mult_ac)
  qed
  ultimately show "Beta_integral (l * x + (1 - l) * y) b * Gamma (l * x + (1 - l) * y + b) / Gamma b
      \<le> (Beta_integral x b * Gamma (x + b) / Gamma b) powr l
          * (Beta_integral y b * Gamma (y + b) / Gamma b) powr (1 - l)"
    unfolding w_def G_def Bx_def By_def Gx_def Gy_def by simp
qed

lemma Beta_integral_Gamma:
  assumes a: "0 < a" and b: "0 < b"
  shows "Beta_integral a b = Gamma a * Gamma b / Gamma (a + b)"
proof -
  have "Beta_integral a b * Gamma (a + b) / Gamma b = Gamma a"
    by (rule gamma_like_unique [OF gamma_like_Beta [OF b] gamma_like_Gamma a])
  moreover have "0 < Gamma b" "0 < Gamma (a + b)"
    using a b by (simp_all add: Gamma_pos add_pos_pos)
  ultimately show ?thesis by (simp add: field_simps)
qed

section \<open>Properties of the posterior update\<close>

text \<open>
  C1: for \<open>k\<close> successes in \<open>n\<close> trials, \<open>0 \<le> k \<le> n\<close>, and any prior \<open>(alpha, beta)\<close>
  the Beta-Binomial update returns \<open>alpha' = k + alpha\<close> and \<open>beta' = n - k + beta\<close>,
  where \<open>n - k\<close> is the number of failures.
\<close>

theorem posterior_update_value:
  assumes "k \<le> n"
  shows "posterior_update n k (alpha, beta) = (real k + alpha, real n - real k + beta)
       \<and> posterior_update n k (alpha, beta) = (real k + alpha, real (n - k) + beta)"
  using assms
  by (simp add: posterior_update_def alpha_posterior_def beta_posterior_def of_nat_diff)

theorem posterior_update_value_witness:
  "(2::nat) \<le> 5 \<and> posterior_update 5 2 (1, 1) = (3, 4)"
  using posterior_update_value [of 2 5 1 1] by simp

text \<open>
  C8: the update keeps Beta parameters valid. With \<open>alpha > 0\<close>, \<open>beta > 0\<close> and
  \<open>0 \<le> k \<le> n\<close> both updated parameters are strictly positive.
\<close>

theorem posterior_update_positive:
  assumes "0 < alpha" and "0 < beta" and "k \<le> n"
  shows "0 < fst (posterior_update n k (alpha, beta))
       \<and> 0 < snd (posterior_update n k (alpha, beta))"
proof -
  have "0 \<le> real n - real k" using assms(3) by simp
  with assms(1,2) show ?thesis
    by (simp add: posterior_update_def alpha_posterior_def beta_posterior_def
        add_pos_nonneg add_nonneg_pos)
qed

theorem posterior_update_positive_witness:
  "(0::real) < 1/2 \<and> (0::real) < 1/3 \<and> (5::nat) \<le> 5
   \<and> 0 < fst (posterior_update 5 5 (1/2, 1/3))
   \<and> 0 < snd (posterior_update 5 5 (1/2, 1/3))"
  using posterior_update_positive [of "1/2" "1/3" 5 5] by simp

text \<open>
  C9: updates compose additively and commute. Updating with \<open>(n1, k1)\<close> and then with
  \<open>(n2, k2)\<close> gives the parameters of one update with \<open>(n1 + n2, k1 + k2)\<close>, and the
  parameters of the two updates done in the other order.
\<close>

theorem posterior_update_compose:
  assumes "k1 \<le> n1" and "k2 \<le> n2"
  shows "posterior_update n2 k2 (posterior_update n1 k1 (alpha, beta))
           = posterior_update (n1 + n2) (k1 + k2) (alpha, beta)
       \<and> posterior_update n2 k2 (posterior_update n1 k1 (alpha, beta))
           = posterior_update n1 k1 (posterior_update n2 k2 (alpha, beta))"
  by (simp add: posterior_update_def alpha_posterior_def beta_posterior_def)

theorem posterior_update_compose_witness:
  "(1::nat) \<le> 4 \<and> (3::nat) \<le> 3
   \<and> posterior_update 3 3 (posterior_update 4 1 (2, 5)) = posterior_update (4 + 3) (1 + 3) (2, 5)
   \<and> posterior_update 3 3 (posterior_update 4 1 (2, 5))
       = posterior_update 4 1 (posterior_update 3 3 (2, 5))"
proof -
  have h1: "(1::nat) \<le> 4" and h2: "(3::nat) \<le> 3" by simp_all
  from posterior_update_compose [OF h1 h2, of 2 5] h1 h2 show ?thesis by blast
qed

text \<open>
  C10: under the uniform prior \<open>Beta(1, 1)\<close> the MAP estimate of the posterior is the
  MLE: for \<open>n > 0\<close> and \<open>0 \<le> k \<le> n\<close>, \<open>MAP(k + 1, n - k + 1) = k / n\<close>.
\<close>

theorem MAP_uniform_prior_is_mle:
  assumes "0 < n" and "k \<le> n"
  shows "MAP (fst (posterior_update n k (1, 1))) (snd (posterior_update n k (1, 1)))
           = mle n k
       \<and> MAP (real k + 1) (real n - real k + 1) = real k / real n"
  by (simp add: MAP_def mle_def posterior_update_def alpha_posterior_def
      beta_posterior_def)

theorem MAP_uniform_prior_is_mle_witness:
  "(0::nat) < 5 \<and> (2::nat) \<le> 5
   \<and> MAP (fst (posterior_update 5 2 (1, 1))) (snd (posterior_update 5 2 (1, 1))) = mle 5 2
   \<and> MAP (2 + 1) (5 - 2 + 1) = (2::real) / 5"
  using MAP_uniform_prior_is_mle [of 5 2] by simp

section \<open>The maximum likelihood estimate\<close>

text \<open>
  C3: for \<open>n > 0\<close> and \<open>0 \<le> k \<le> n\<close> the MLE point estimate is \<open>k / n\<close>, and \<open>p = k / n\<close>
  maximises the Binomial likelihood \<open>L(n, k | p)\<close> over all \<open>p\<close> in \<open>[0, 1]\<close>.
\<close>

theorem mle_maximises_likelihood:
  assumes "0 < n" and "k \<le> n" and "0 \<le> p" and "p \<le> 1"
  shows "mle n k = real k / real n \<and> likelihood n k p \<le> likelihood n k (mle n k)"
proof -
  define a where "a = real k"
  define b where "b = real (n - k)"
  have ab: "a + b = real n" using assms(2) by (simp add: a_def b_def)
  have m: "a / (a + b) = mle n k" unfolding ab by (simp add: mle_def a_def)
  have m01: "0 \<le> mle n k" "0 \<le> 1 - mle n k"
    using assms(1,2) by (simp_all add: mle_def)
  have "rpow p a * rpow (1 - p) b \<le> rpow (a / (a + b)) a * rpow (1 - a / (a + b)) b"
    using assms by (intro beta_kernel_mode) (simp_all add: ab, simp_all add: a_def b_def)
  then have "p ^ k * (1 - p) ^ (n - k) \<le> mle n k ^ k * (1 - mle n k) ^ (n - k)"
    unfolding m unfolding a_def b_def using assms(3,4) m01 by (simp add: rpow_nat)
  then have "real (n choose k) * (p ^ k * (1 - p) ^ (n - k))
      \<le> real (n choose k) * (mle n k ^ k * (1 - mle n k) ^ (n - k))"
    by (intro mult_left_mono) simp_all
  then show ?thesis by (simp add: likelihood_def mle_def mult.assoc)
qed

theorem mle_maximises_likelihood_witness:
  "(0::nat) < 5 \<and> (2::nat) \<le> 5 \<and> (0::real) \<le> 1/2 \<and> (1/2::real) \<le> 1
   \<and> mle 5 2 = real 2 / real 5 \<and> likelihood 5 2 (1/2) \<le> likelihood 5 2 (mle 5 2)"
  using mle_maximises_likelihood [of 5 2 "1/2"] by simp

section \<open>The Gamma function at the positive integers\<close>

text \<open>
  C6: for every positive integer \<open>z\<close> the integral of \<open>x^(z - 1) e^(-x)\<close> over
  \<open>(0, \<infinity>)\<close> is \<open>(z - 1)!\<close>, so the two cases of the definition of \<open>\<Gamma>\<close> agree:
  \<open>\<Gamma>(z) = (z - 1)!\<close> is the value of the integral.
\<close>

theorem Gamma_positive_integer:
  assumes "0 < z"
  shows "has_integral_0_inf (\<lambda>x. rpow x (real z - 1) * exp (- x)) (fact (z - 1))
       \<and> Gamma_integral (real z) = fact (z - 1)
       \<and> Gamma (real z) = fact (z - 1)"
proof -
  from assms obtain m where m: "z = Suc m" by (cases z) auto
  have "Gamma (real (Suc m)) = Gamma_integral (real (Suc m))"
    by (rule Gamma_eq_integral) simp
  then show ?thesis
    unfolding m using Gamma_integrand_nat [of m] Gamma_integral_Suc [of m] by simp
qed

theorem Gamma_positive_integer_witness:
  "(0::nat) < 4
   \<and> has_integral_0_inf (\<lambda>x. rpow x (real 4 - 1) * exp (- x)) (fact (4 - 1))
   \<and> Gamma_integral (real 4) = fact (4 - 1)
   \<and> Gamma (real 4) = fact (4 - 1)"
proof -
  have h: "(0::nat) < 4" by simp
  from Gamma_positive_integer [OF h] h show ?thesis by blast
qed

section \<open>The Beta function as an integral\<close>

text \<open>
  C7: for \<open>alpha > 0\<close> and \<open>beta > 0\<close> the integral of
  \<open>u^(alpha - 1) (1 - u)^(beta - 1)\<close> over \<open>(0, 1)\<close> is
  \<open>\<Gamma>(alpha) \<Gamma>(beta) / \<Gamma>(alpha + beta)\<close>, so the two forms of the Beta function agree,
  and with them the two forms of the Beta density at every \<open>x\<close> in \<open>[0, 1]\<close>.
\<close>

theorem Beta_function_is_integral:
  assumes "0 < alpha" and "0 < beta" and "0 \<le> x" and "x \<le> 1"
  shows "has_integral_0_1 (\<lambda>u. rpow u (alpha - 1) * rpow (1 - u) (beta - 1))
           (Gamma alpha * Gamma beta / Gamma (alpha + beta))
       \<and> Beta_function alpha beta = Beta_integral alpha beta
       \<and> beta_pdf_integral alpha beta x = beta_pdf alpha beta x"
proof -
  have B: "Beta_integral alpha beta = Gamma alpha * Gamma beta / Gamma (alpha + beta)"
    by (rule Beta_integral_Gamma [OF assms(1,2)])
  have "has_integral_0_1 (\<lambda>u. rpow u (alpha - 1) * rpow (1 - u) (beta - 1))
      (Beta_integral alpha beta)"
    by (rule Beta_has_integral [OF assms(1,2)])
  then show ?thesis
    by (simp add: B Beta_function_def beta_pdf_integral_def beta_pdf_def)
qed

theorem Beta_function_is_integral_witness:
  "(0::real) < 2 \<and> (0::real) < 1/2 \<and> (0::real) \<le> 1/3 \<and> (1/3::real) \<le> 1
   \<and> has_integral_0_1 (\<lambda>u. rpow u (2 - 1) * rpow (1 - u) (1/2 - 1))
         (Gamma 2 * Gamma (1/2) / Gamma (2 + 1/2))
   \<and> Beta_function 2 (1/2) = Beta_integral 2 (1/2)
   \<and> beta_pdf_integral 2 (1/2) (1/3) = beta_pdf 2 (1/2) (1/3)"
proof -
  have h: "(0::real) < 2" "(0::real) < 1/2" "(0::real) \<le> 1/3" "(1/3::real) \<le> 1" by simp_all
  from Beta_function_is_integral [OF h] h show ?thesis by blast
qed

section \<open>Conjugacy\<close>

text \<open>
  C2: for \<open>p\<close> in \<open>[0, 1]\<close>, \<open>alpha > 0\<close>, \<open>beta > 0\<close> and \<open>0 \<le> k \<le> n\<close> the product of the
  Binomial likelihood and the \<open>Beta(alpha, beta)\<close> density is
  \<open>c p^(k + alpha - 1) (1 - p)^(n - k + beta - 1)\<close>, which is the
  \<open>Beta(k + alpha, n - k + beta)\<close> density times a factor that does not depend on \<open>p\<close>
  and is strictly positive: the posterior stays in the Beta family.
\<close>

theorem beta_binomial_conjugacy:
  assumes "0 < alpha" and "0 < beta" and "k \<le> n" and "0 \<le> p" and "p \<le> 1"
  shows "likelihood n k p * beta_pdf alpha beta p
           = posterior_constant n k alpha beta
               * rpow p (real k + alpha - 1) * rpow (1 - p) (real n - real k + beta - 1)
       \<and> likelihood n k p * beta_pdf alpha beta p
           = posterior_constant n k alpha beta
               / (Gamma (alpha_posterior k alpha + beta_posterior n k beta)
                    / (Gamma (alpha_posterior k alpha) * Gamma (beta_posterior n k beta)))
               * beta_pdf (alpha_posterior k alpha) (beta_posterior n k beta) p
       \<and> 0 < posterior_constant n k alpha beta
               / (Gamma (alpha_posterior k alpha + beta_posterior n k beta)
                    / (Gamma (alpha_posterior k alpha) * Gamma (beta_posterior n k beta)))"
proof -
  define a' where "a' = alpha_posterior k alpha"
  define b' where "b' = beta_posterior n k beta"
  define N where "N = Gamma (alpha + beta) / (Gamma alpha * Gamma beta)"
  define N' where "N' = Gamma (a' + b') / (Gamma a' * Gamma b')"
  define c where "c = posterior_constant n k alpha beta"
  define K where "K = rpow p (real k + alpha - 1) * rpow (1 - p) (real n - real k + beta - 1)"
  have nk: "real (n - k) = real n - real k" using assms(3) by (simp add: of_nat_diff)
  have a': "0 < a'" using assms(1) by (simp add: a'_def alpha_posterior_def add_nonneg_pos)
  have b': "0 < b'"
    using assms(2,3) by (simp add: b'_def beta_posterior_def add_nonneg_pos)
  have N': "0 < N'" unfolding N'_def by (rule beta_norm_pos [OF a' b'])
  have c: "0 < c" unfolding c_def by (rule posterior_constant_pos [OF assms(1-3)])
  have 1: "p ^ k * rpow p (alpha - 1) = rpow p (real k + alpha - 1)"
    by (rule pow_rpow [OF assms(4,1)])
  have 2: "(1 - p) ^ (n - k) * rpow (1 - p) (beta - 1)
      = rpow (1 - p) (real n - real k + beta - 1)"
    using pow_rpow [of "1 - p" beta "n - k"] assms(5,2) by (simp add: nk)
  have "likelihood n k p * beta_pdf alpha beta p
      = (real (n choose k) * N) * ((p ^ k * rpow p (alpha - 1))
          * ((1 - p) ^ (n - k) * rpow (1 - p) (beta - 1)))"
    by (simp add: likelihood_def beta_pdf_def N_def)
  then have e1: "likelihood n k p * beta_pdf alpha beta p = c * K"
    unfolding 1 2 by (simp add: c_def posterior_constant_def N_def K_def)
  have "beta_pdf a' b' p = N' * K"
    by (simp add: beta_pdf_def N'_def K_def a'_def b'_def alpha_posterior_def
        beta_posterior_def)
  then have e2: "c / N' * beta_pdf a' b' p = c * K" using N' by simp
  have "0 < c / N'" using c N' by simp
  with e1 e2 show ?thesis
    unfolding c_def N'_def a'_def b'_def K_def by (simp add: mult.assoc)
qed

theorem beta_binomial_conjugacy_witness:
  "(0::real) < 2 \<and> (0::real) < 3 \<and> (2::nat) \<le> 5 \<and> (0::real) \<le> 1/2 \<and> (1/2::real) \<le> 1
   \<and> likelihood 5 2 (1/2) * beta_pdf 2 3 (1/2)
       = posterior_constant 5 2 2 3
           / (Gamma (alpha_posterior 2 2 + beta_posterior 5 2 3)
                / (Gamma (alpha_posterior 2 2) * Gamma (beta_posterior 5 2 3)))
           * beta_pdf (alpha_posterior 2 2) (beta_posterior 5 2 3) (1/2)
   \<and> 0 < posterior_constant 5 2 2 3
           / (Gamma (alpha_posterior 2 2 + beta_posterior 5 2 3)
                / (Gamma (alpha_posterior 2 2) * Gamma (beta_posterior 5 2 3)))"
proof -
  have h: "(0::real) < 2" "(0::real) < 3" "(2::nat) \<le> 5" "(0::real) \<le> 1/2" "(1/2::real) \<le> 1"
    by simp_all
  from beta_binomial_conjugacy [OF h] h show ?thesis by blast
qed

section \<open>The MAP as the mode of the Beta density\<close>

text \<open>
  C4, as stated for every \<open>alpha\<close> and \<open>beta\<close>, fails. \<open>Beta(1, 1)\<close> takes the same
  value at \<open>1/4\<close> and at \<open>3/4\<close> (it is constant on \<open>[0, 1]\<close>), so it has no unique
  argmax, whatever \<open>MAP(1, 1) = 0 / 0\<close> is taken to be. For \<open>Beta(1/2, 1/2)\<close> the
  formula gives \<open>MAP = 1/2\<close>, where the density is smaller than at \<open>1/4\<close>.
\<close>

theorem MAP_mode_counterexample:
  "(0::real) \<le> 1/4 \<and> (1/4::real) \<le> 1 \<and> (0::real) \<le> 3/4 \<and> (3/4::real) \<le> 1
   \<and> (1/4::real) \<noteq> 3/4 \<and> beta_pdf 1 1 (1/4) = beta_pdf 1 1 (3/4)
   \<and> MAP (1/2) (1/2) = 1/2
   \<and> beta_pdf (1/2) (1/2) (MAP (1/2) (1/2)) < beta_pdf (1/2) (1/2) (1/4)"
proof -
  have A: "beta_pdf 1 1 (1/4) = beta_pdf 1 1 (3/4)"
    by (simp add: beta_pdf_def rpow_def)
  define N where "N = Gamma (1/2 + 1/2) / (Gamma (1/2) * Gamma (1/2))"
  have N: "0 < N" unfolding N_def by (intro beta_norm_pos) simp_all
  have m: "MAP (1/2) (1/2) = 1/2" by (simp add: MAP_def)
  have inv: "(1/2::real) powr (- 1) = 2" by (simp add: powr_minus)
  have "(1/2::real) powr (- (1/2)) * (1/2) powr (- (1/2)) = (1/2) powr (- (1/2) + - (1/2))"
    by (simp only: powr_add)
  also have "- (1/2) + - (1/2) = (- 1::real)" by simp
  finally have h: "(1/2::real) powr (- (1/2)) * (1/2) powr (- (1/2)) = 2"
    by (simp only: inv)
  have "((1/2::real) powr 2) powr (- (1/2)) = (1/2) powr (2 * - (1/2))"
    by (rule powr_powr)
  moreover have "(1/2::real) powr 2 = 1/4" by (simp add: power2_eq_square)
  moreover have "2 * - (1/2) = (- 1::real)" by simp
  ultimately have q: "(1/4::real) powr (- (1/2)) = 2" by (simp only: inv)
  have "(1::real) powr (- (1/2)) < (3/4) powr (- (1/2))"
    by (rule powr_less_mono2_neg) simp_all
  then have t: "1 < (3/4::real) powr (- (1/2))" by simp
  have "rpow (1/2) (1/2 - 1) * rpow (1 - 1/2) (1/2 - 1)
      < rpow (1/4) (1/2 - 1) * rpow (1 - 1/4) (1/2 - 1)"
    using h q t by (simp add: rpow_def)
  then have "N * (rpow (1/2) (1/2 - 1) * rpow (1 - 1/2) (1/2 - 1))
      < N * (rpow (1/4) (1/2 - 1) * rpow (1 - 1/4) (1/2 - 1))"
    using N by (rule mult_strict_left_mono)
  then have B: "beta_pdf (1/2) (1/2) (MAP (1/2) (1/2)) < beta_pdf (1/2) (1/2) (1/4)"
    unfolding m beta_pdf_def N_def by (simp only: mult.assoc)
  have n: "(0::real) \<le> 1/4" "(1/4::real) \<le> 1" "(0::real) \<le> 3/4" "(3/4::real) \<le> 1"
    "(1/4::real) \<noteq> 3/4" by simp_all
  from n A m B show ?thesis by blast
qed

text \<open>
  C4, amended: for \<open>alpha \<ge> 1\<close> and \<open>beta \<ge> 1\<close> with \<open>alpha + beta > 2\<close>,
  \<open>MAP(alpha, beta) = (alpha - 1) / (alpha + beta - 2)\<close> lies in \<open>[0, 1]\<close> and is the unique
  argmax of the \<open>Beta(alpha, beta)\<close> density over \<open>[0, 1]\<close>: the density is strictly
  smaller at every other point of the interval.
\<close>

theorem MAP_is_mode:
  assumes "1 \<le> alpha" and "1 \<le> beta" and "2 < alpha + beta"
    and "0 \<le> x" and "x \<le> 1" and "x \<noteq> MAP alpha beta"
  shows "MAP alpha beta = (alpha - 1) / (alpha + beta - 2)
       \<and> 0 \<le> MAP alpha beta \<and> MAP alpha beta \<le> 1
       \<and> beta_pdf alpha beta x < beta_pdf alpha beta (MAP alpha beta)"
proof -
  define a where "a = alpha - 1"
  define b where "b = beta - 1"
  define N where "N = Gamma (alpha + beta) / (Gamma alpha * Gamma beta)"
  have a: "0 \<le> a" and b: "0 \<le> b" and ab: "0 < a + b"
    using assms(1-3) by (simp_all add: a_def b_def)
  have m: "MAP alpha beta = a / (a + b)" by (simp add: MAP_def a_def b_def)
  have N: "0 < N" unfolding N_def using assms(1,2) by (intro beta_norm_pos) simp_all
  have "rpow x a * rpow (1 - x) b < rpow (a / (a + b)) a * rpow (1 - a / (a + b)) b"
    using assms(6) unfolding m by (intro beta_kernel_mode(2) [OF a b ab assms(4,5)])
  then have "N * (rpow x a * rpow (1 - x) b)
      < N * (rpow (a / (a + b)) a * rpow (1 - a / (a + b)) b)"
    using N by (rule mult_strict_left_mono)
  then have "beta_pdf alpha beta x < beta_pdf alpha beta (MAP alpha beta)"
    unfolding m by (simp add: beta_pdf_def N_def a_def b_def mult.assoc)
  moreover have "0 \<le> a / (a + b)" using a ab by simp
  moreover have "a / (a + b) \<le> 1" using a b ab by simp
  moreover have "a / (a + b) = (alpha - 1) / (alpha + beta - 2)" by (simp add: a_def b_def)
  ultimately show ?thesis unfolding m by simp
qed

theorem MAP_is_mode_witness:
  "(1::real) \<le> 2 \<and> (1::real) \<le> 3 \<and> (2::real) < 2 + 3 \<and> (0::real) \<le> 1/2 \<and> (1/2::real) \<le> 1
   \<and> 1/2 \<noteq> MAP 2 3 \<and> MAP 2 3 = 1/3 \<and> 0 \<le> MAP 2 3 \<and> MAP 2 3 \<le> 1
   \<and> beta_pdf 2 3 (1/2) < beta_pdf 2 3 (MAP 2 3)"
proof -
  have h: "(1/2::real) \<noteq> MAP 2 3" by (simp add: MAP_def)
  from MAP_is_mode [of 2 3 "1/2"] h show ?thesis by simp
qed

section \<open>The code cells\<close>

text \<open>
  C5, as stated for every code cell, fails: the first code cell holds the imports, a seaborn style call and
  two IPython magics, and the source of the last code cell is empty.
\<close>

theorem code_cells_counterexample:
  "is_code (notebook_cells ! 2) \<and> \<not> is_placeholder (notebook_cells ! 2)
   \<and> filter is_statement (cell_source (notebook_cells ! 2)) \<noteq> []
   \<and> is_code (notebook_cells ! 25) \<and> \<not> is_placeholder (notebook_cells ! 25)"
  by (simp add: notebook_cells_def is_placeholder_def is_statement_def)

text \<open>
  C5, amended: the notebook has nine code cells; the second to the eighth are
  placeholders whose whole source is the comment \<^verbatim>\<open># A:\<close>, the last has an empty
  source, and the first is the only one with statements. Its eight lines that are
  neither blank nor comments are five imports, one seaborn style call and two IPython
  magics; no other line of a code cell is a statement.
\<close>

theorem code_cells_placeholders:
  \<open>map is_placeholder code_cells
     = [False, True, True, True, True, True, True, True, False]
   \<and> cell_source (last code_cells) = []
   \<and> map (\<lambda>c. length (filter is_statement (cell_source c))) code_cells
     = [8, 0, 0, 0, 0, 0, 0, 0, 0]
   \<and> filter is_statement (cell_source (hd code_cells))
     = [ ''import matplotlib.pyplot as plt'',
         ''import numpy as np'',
         ''import pandas as pd'',
         ''import seaborn as sns'',
         ''import scipy.stats as stats'',
         ''sns.set_style("whitegrid")'',
         ''%matplotlib inline'',
         ''%config InlineBackend.figure_format = '' @ [CHR 0x27] @ ''retina'' @ [CHR 0x27] ]
   \<and> map kind_of_line (filter is_statement (cell_source (hd code_cells)))
     = [Import, Import, Import, Import, Import, Call, Magic, Magic]
   \<and> concat (map (\<lambda>c. map kind_of_line (cell_source c)) (tl code_cells))
     = [Comment, Comment, Comment, Comment, Comment, Comment, Comment]\<close>
  by (simp add: code_cells_def notebook_cells_def is_placeholder_def is_statement_def
      kind_of_line_def starts_with_def)

end
